theory Spec2Isabelle
  imports Complex_Main
begin

section \<open>Floating-point numbers\<close>

text \<open>
  The notebook computes on torch tensors of 32-bit floats and on Python numbers (unbounded
  ints and 64-bit floats). A value of either float type is a real number or one of the three
  non-finite values; every arithmetic operation computes the exact real result and rounds it
  to the nearest value of the format, a tie to the even significand, as IEEE 754 prescribes.
  The two zeros of a float are identified: no operation of the notebook tells them apart,
  since every zero divisor it forms is an absolute value or a non-negative count.
\<close>

datatype fval = Fin real | PInf | NInf | NaN

type_synonym tensor = "fval list"

datatype error = AssertionError | UnboundLocalError | RuntimeError | OverflowError

fun is_fin :: "fval \<Rightarrow> bool" where
  "is_fin (Fin a) = True"
| "is_fin v = False"

text \<open>Rounding to the nearest integer, a tie to the even neighbour (also \<open>torch.round\<close>).\<close>

definition round_half_even :: "real \<Rightarrow> int" where
  "round_half_even x =
     (let f = \<lfloor>x\<rfloor>; d = x - of_int f
      in if d < 1 / 2 then f else if 1 / 2 < d then f + 1 else if even f then f else f + 1)"

text \<open>
  A binary format has \<open>p\<close> significand bits and exponents from \<open>1 - emax\<close> to \<open>emax\<close>.
  The exponent of a magnitude \<open>a\<close> is the largest \<open>e\<close> in that range with \<open>2^e \<le> a\<close>, and
  the smallest exponent for the subnormal magnitudes below; it is searched downwards from
  \<open>emax\<close>. Values of that exponent are the multiples of \<open>2^(e - (p - 1))\<close>; a result of
  magnitude \<open>2^(emax + 1)\<close> or more has overflowed.
\<close>

fun exp_search :: "nat \<Rightarrow> int \<Rightarrow> real \<Rightarrow> int" where
  "exp_search 0 e a = e"
| "exp_search (Suc f) e a = (if 2 powi e \<le> a then e else exp_search f (e - 1) a)"

definition fp_exp :: "int \<Rightarrow> real \<Rightarrow> int" where
  "fp_exp emax a = exp_search (nat (2 * emax - 1)) emax a"

definition fp_round :: "nat \<Rightarrow> int \<Rightarrow> real \<Rightarrow> fval" where
  "fp_round p emax r =
     (let e = fp_exp emax \<bar>r\<bar>; u = 2 powi (e - (int p - 1));
          v = of_int (round_half_even (r / u)) * u
      in if 2 powi (emax + 1) \<le> v then PInf
         else if v \<le> - (2 powi (emax + 1)) then NInf else Fin v)"

text \<open>The element type of the tensors (\<open>torch.float32\<close>) and Python's \<open>float\<close>.\<close>

definition f32_round :: "real \<Rightarrow> fval" where
  "f32_round = fp_round 24 127"

definition f64_round :: "real \<Rightarrow> fval" where
  "f64_round = fp_round 53 1023"

text \<open>Arithmetic, with the rounding of the format as a parameter.\<close>

fun fp_add :: "(real \<Rightarrow> fval) \<Rightarrow> fval \<Rightarrow> fval \<Rightarrow> fval" where
  "fp_add rnd (Fin a) (Fin b) = rnd (a + b)"
| "fp_add rnd NaN v = NaN"
| "fp_add rnd v NaN = NaN"
| "fp_add rnd PInf NInf = NaN"
| "fp_add rnd NInf PInf = NaN"
| "fp_add rnd PInf v = PInf"
| "fp_add rnd v PInf = PInf"
| "fp_add rnd NInf v = NInf"
| "fp_add rnd v NInf = NInf"

fun fneg :: "fval \<Rightarrow> fval" where
  "fneg (Fin a) = Fin (- a)"
| "fneg PInf = NInf"
| "fneg NInf = PInf"
| "fneg NaN = NaN"

definition fp_sub :: "(real \<Rightarrow> fval) \<Rightarrow> fval \<Rightarrow> fval \<Rightarrow> fval" where
  "fp_sub rnd u v = fp_add rnd u (fneg v)"

fun fp_mul :: "(real \<Rightarrow> fval) \<Rightarrow> fval \<Rightarrow> fval \<Rightarrow> fval" where
  "fp_mul rnd (Fin a) (Fin b) = rnd (a * b)"
| "fp_mul rnd NaN v = NaN"
| "fp_mul rnd v NaN = NaN"
| "fp_mul rnd PInf (Fin b) = (if 0 < b then PInf else if b < 0 then NInf else NaN)"
| "fp_mul rnd NInf (Fin b) = (if 0 < b then NInf else if b < 0 then PInf else NaN)"
| "fp_mul rnd (Fin a) PInf = (if 0 < a then PInf else if a < 0 then NInf else NaN)"
| "fp_mul rnd (Fin a) NInf = (if 0 < a then NInf else if a < 0 then PInf else NaN)"
| "fp_mul rnd PInf PInf = PInf"
| "fp_mul rnd PInf NInf = NInf"
| "fp_mul rnd NInf PInf = NInf"
| "fp_mul rnd NInf NInf = PInf"

text \<open>A finite value divided by zero is infinite with the sign of the dividend, and zero
  divided by zero is NaN.\<close>

fun fp_div :: "(real \<Rightarrow> fval) \<Rightarrow> fval \<Rightarrow> fval \<Rightarrow> fval" where
  "fp_div rnd (Fin a) (Fin b) =
     (if b \<noteq> 0 then rnd (a / b) else if 0 < a then PInf else if a < 0 then NInf else NaN)"
| "fp_div rnd NaN v = NaN"
| "fp_div rnd v NaN = NaN"
| "fp_div rnd (Fin a) PInf = Fin 0"
| "fp_div rnd (Fin a) NInf = Fin 0"
| "fp_div rnd PInf (Fin b) = (if 0 \<le> b then PInf else NInf)"
| "fp_div rnd NInf (Fin b) = (if 0 \<le> b then NInf else PInf)"
| "fp_div rnd PInf v = NaN"
| "fp_div rnd NInf v = NaN"

section \<open>Tensor elements\<close>

text \<open>
  A tensor is the list of its elements: every operation used here is element-wise or a
  reduction over the whole tensor, so the shape plays no role. The element operations are
  those of the CPU kernels, which round each result once to float32.
\<close>

abbreviation fadd :: "fval \<Rightarrow> fval \<Rightarrow> fval" where
  "fadd \<equiv> fp_add f32_round"

abbreviation fsub :: "fval \<Rightarrow> fval \<Rightarrow> fval" where
  "fsub \<equiv> fp_sub f32_round"

abbreviation fmul :: "fval \<Rightarrow> fval \<Rightarrow> fval" where
  "fmul \<equiv> fp_mul f32_round"

abbreviation fdiv :: "fval \<Rightarrow> fval \<Rightarrow> fval" where
  "fdiv \<equiv> fp_div f32_round"

text \<open>\<open>torch.round\<close>: the rounded value of a float is a float, so nothing is lost.\<close>

fun fround :: "fval \<Rightarrow> fval" where
  "fround (Fin a) = Fin (of_int (round_half_even a))"
| "fround v = v"

text \<open>\<open>torch.sign\<close> computes \<open>(0 < a) - (a < 0)\<close>; both comparisons are false on NaN.\<close>

fun fsign :: "fval \<Rightarrow> fval" where
  "fsign (Fin a) = Fin (sgn a)"
| "fsign PInf = Fin 1"
| "fsign NInf = Fin (- 1)"
| "fsign NaN = Fin 0"

fun fabs :: "fval \<Rightarrow> fval" where
  "fabs (Fin a) = Fin \<bar>a\<bar>"
| "fabs PInf = PInf"
| "fabs NInf = PInf"
| "fabs NaN = NaN"

text \<open>
  \<open>Tensor.tanh\<close>. The float32 value that the library returns for \<open>tanh\<close> is not fixed by
  IEEE 754, so the element operation takes it as a parameter: \<open>th a\<close> is the float32 that
  the library returns on the finite float \<open>a\<close>. On the non-finite values \<open>tanh\<close> is exact.
\<close>

fun ftanh :: "(real \<Rightarrow> real) \<Rightarrow> fval \<Rightarrow> fval" where
  "ftanh th (Fin a) = Fin (th a)"
| "ftanh th PInf = Fin 1"
| "ftanh th NInf = Fin (- 1)"
| "ftanh th NaN = NaN"

text \<open>One such library: the one whose \<open>tanh\<close> is correctly rounded (\<open>tanh\<close> lies strictly
  between -1 and 1, so its rounding is finite).\<close>

definition tanh_cr :: "real \<Rightarrow> real" where
  "tanh_cr a = (case f32_round (tanh a) of Fin v \<Rightarrow> v | _ \<Rightarrow> 0)"

fun fclamp :: "real \<Rightarrow> real \<Rightarrow> fval \<Rightarrow> fval" where
  "fclamp lo hi (Fin a) = Fin (min (max a lo) hi)"
| "fclamp lo hi PInf = Fin hi"
| "fclamp lo hi NInf = Fin lo"
| "fclamp lo hi NaN = NaN"

text \<open>The maximum of two elements; a NaN wins, as in the reduction \<open>Tensor.max()\<close>.\<close>

fun fmax :: "fval \<Rightarrow> fval \<Rightarrow> fval" where
  "fmax (Fin a) (Fin b) = Fin (max a b)"
| "fmax NaN v = NaN"
| "fmax v NaN = NaN"
| "fmax PInf v = PInf"
| "fmax v PInf = PInf"
| "fmax NInf v = v"
| "fmax v NInf = v"

section \<open>Whole-tensor reductions\<close>

text \<open>
  \<open>Tensor.mean()\<close> is the sum over the number of elements (NaN on an empty tensor). The
  order in which the library adds the elements is not fixed; the sum is taken here from the
  right. The results below sum only tensors whose partial sums are all exact.
\<close>

primrec t_sum :: "tensor \<Rightarrow> fval" where
  "t_sum [] = Fin 0"
| "t_sum (v # vs) = fadd v (t_sum vs)"

definition t_mean :: "tensor \<Rightarrow> fval" where
  "t_mean t = fdiv (t_sum t) (Fin (real (length t)))"

text \<open>\<open>Tensor.max()\<close> without a dimension raises RuntimeError on an empty tensor.\<close>

fun t_max :: "tensor \<Rightarrow> error + fval" where
  "t_max [] = Inl RuntimeError"
| "t_max (v # vs) = Inr (foldl fmax v vs)"

section \<open>Python numbers\<close>

text \<open>
  A Python number is an int or a float. Converting an int to a float rounds it, and raises
  OverflowError when the rounded value is out of range. \<open>2 ** k\<close> is an int for \<open>k \<ge> 0\<close>;
  for \<open>k < 0\<close> Python converts the exponent to a float and computes the float power, a
  power of two that is exact or underflows. An int and a float combine as floats; the true
  division of two ints is the correctly rounded quotient.
\<close>

datatype pynum = PyInt int | PyFloat fval

definition py_float_of_int :: "int \<Rightarrow> error + fval" where
  "py_float_of_int i =
     (case f64_round (of_int i) of Fin v \<Rightarrow> Inr (Fin v) | _ \<Rightarrow> Inl OverflowError)"

fun float_pow2 :: "fval \<Rightarrow> fval" where
  "float_pow2 (Fin d) = f64_round (2 powi \<lfloor>d\<rfloor>)"
| "float_pow2 PInf = PInf"
| "float_pow2 NInf = Fin 0"
| "float_pow2 NaN = NaN"

definition py_pow2 :: "int \<Rightarrow> error + pynum" where
  "py_pow2 k =
     (if 0 \<le> k then Inr (PyInt (2 ^ nat k))
      else case py_float_of_int k of
             Inl e \<Rightarrow> Inl e
           | Inr kd \<Rightarrow> Inr (PyFloat (float_pow2 kd)))"

fun py_add :: "pynum \<Rightarrow> int \<Rightarrow> pynum" where
  "py_add (PyInt i) j = PyInt (i + j)"
| "py_add (PyFloat a) j = PyFloat (fp_add f64_round a (Fin (of_int j)))"

fun py_sub :: "pynum \<Rightarrow> int \<Rightarrow> pynum" where
  "py_sub (PyInt i) j = PyInt (i - j)"
| "py_sub (PyFloat a) j = PyFloat (fp_sub f64_round a (Fin (of_int j)))"

text \<open>\<open>x / 2\<close>.\<close>

fun py_half :: "pynum \<Rightarrow> error + pynum" where
  "py_half (PyInt i) =
     (case f64_round (of_int i / 2) of
        Fin v \<Rightarrow> Inr (PyFloat (Fin v)) | _ \<Rightarrow> Inl OverflowError)"
| "py_half (PyFloat a) = Inr (PyFloat (fp_div f64_round a (Fin 2)))"

text \<open>\<open>float(x)\<close>.\<close>

fun py_float :: "pynum \<Rightarrow> error + fval" where
  "py_float (PyInt i) = py_float_of_int i"
| "py_float (PyFloat a) = Inr a"

text \<open>A Python number as the scalar operand of a float32 tensor operation: it is converted
  to the element type of the tensor.\<close>

fun to_f32 :: "pynum \<Rightarrow> fval" where
  "to_f32 (PyInt i) = f32_round (of_int i)"
| "to_f32 (PyFloat (Fin v)) = f32_round v"
| "to_f32 (PyFloat v) = v"

section \<open>The uniform quantizer\<close>

text \<open>
  \<^verbatim>\<open>
  def get_uniform_quantizer(n_bits):
      class qfn(torch.autograd.Function):
          @staticmethod
          def forward(ctx, in_tensor):
              if n_bits == 32:
                  out_tensor = in_tensor
              elif n_bits == 1:
                  out_tensor = torch.sign(in_tensor)
              else:
                  n = float(2 ** n_bits - 1)
                  out = torch.round(in_tensor * n) / n
              return out
          @staticmethod
          def backward(ctx, grad_output):
              grad_input = grad_output.clone()
              return grad_input
      return qfn().apply
  \<close>
  The local variables of \<open>forward\<close> are a record; a variable that was never assigned is
  \<open>None\<close>, and reading it raises UnboundLocalError.
\<close>

record qfn_locals =
  out_tensor :: "tensor option"
  out :: "tensor option"

definition qfn_forward :: "int \<Rightarrow> tensor \<Rightarrow> error + tensor" where
  "qfn_forward n_bits in_tensor =
     (if n_bits = 32 then
        (case out \<lparr>out_tensor = Some in_tensor, out = None\<rparr> of
           None \<Rightarrow> Inl UnboundLocalError | Some t \<Rightarrow> Inr t)
      else if n_bits = 1 then
        (case out \<lparr>out_tensor = Some (map fsign in_tensor), out = None\<rparr> of
           None \<Rightarrow> Inl UnboundLocalError | Some t \<Rightarrow> Inr t)
      else
        (case py_pow2 n_bits of
           Inl e \<Rightarrow> Inl e
         | Inr p \<Rightarrow>
             (case py_float (py_sub p 1) of
                Inl e \<Rightarrow> Inl e
              | Inr n \<Rightarrow>
                  (case out \<lparr>out_tensor = None,
                             out = Some (map (\<lambda>v. fdiv (fround (fmul v (to_f32 (PyFloat n))))
                                                       (to_f32 (PyFloat n))) in_tensor)\<rparr> of
                     None \<Rightarrow> Inl UnboundLocalError | Some t \<Rightarrow> Inr t))))"

primrec clone :: "tensor \<Rightarrow> tensor" where
  "clone [] = []"
| "clone (v # vs) = v # clone vs"

definition qfn_backward :: "int \<Rightarrow> tensor \<Rightarrow> tensor" where
  "qfn_backward n_bits grad_output = (let grad_input = clone grad_output in grad_input)"

section \<open>Weight and activation quantization\<close>

text \<open>
  \<^verbatim>\<open>
  class weight_quantize_fn(nn.Module):
      def __init__(self, n_bits):
          super(weight_quantize_fn, self).__init__()
          assert n_bits <= 8 or n_bits == 32
          self.n_bits = n_bits
          self.value_range = 2 ** self.n_bits - 1
          self.uniform_q = get_uniform_quantizer(n_bits)

      def forward(self, x):
          if self.n_bits == 32:
              weight_q = x
          elif self.n_bits == 1:
              E = x.abs().mean().detach()
              weight_q = self.uniform_q(x / E) * E
          else:
              weight = x.tanh()
              weight = weight / 2 / weight.abs().max() + 0.5
              weight_q = self.uniform_q(weight)
              weight_q = self.value_range * weight_q - (self.value_range + 1) / 2
          return weight_q
  \<close>
  The module is a record of its three fields; \<open>uniform_q\<close> holds the forward function of
  the quantizer that \<open>get_uniform_quantizer\<close> returned. The forward function of the module
  takes the \<open>tanh\<close> of the library as its first argument.
\<close>

record weight_quantize_fn =
  n_bits :: int
  value_range :: pynum
  uniform_q :: "tensor \<Rightarrow> error + tensor"

definition weight_quantize_fn_init :: "int \<Rightarrow> error + weight_quantize_fn" where
  "weight_quantize_fn_init k =
     (if k \<le> 8 \<or> k = 32 then
        (case py_pow2 k of
           Inl e \<Rightarrow> Inl e
         | Inr p \<Rightarrow> Inr \<lparr>n_bits = k, value_range = py_sub p 1, uniform_q = qfn_forward k\<rparr>)
      else Inl AssertionError)"

definition weight_quantize_fn_forward_with ::
  "(real \<Rightarrow> real) \<Rightarrow> weight_quantize_fn \<Rightarrow> tensor \<Rightarrow> error + tensor" where
  "weight_quantize_fn_forward_with th self x =
     (if n_bits self = 32 then Inr x
      else if n_bits self = 1 then
        (let E = t_mean (map fabs x)
         in case uniform_q self (map (\<lambda>v. fdiv v E) x) of
              Inl e \<Rightarrow> Inl e
            | Inr q \<Rightarrow> Inr (map (\<lambda>v. fmul v E) q))
      else
        (let weight = map (ftanh th) x
         in case t_max (map fabs weight) of
              Inl e \<Rightarrow> Inl e
            | Inr m \<Rightarrow>
                (let weight = map (\<lambda>v. fadd (fdiv (fdiv v (Fin 2)) m) (Fin (1 / 2))) weight
                 in case uniform_q self weight of
                      Inl e \<Rightarrow> Inl e
                    | Inr weight_q \<Rightarrow>
                        (let scaled = map (\<lambda>v. fmul (to_f32 (value_range self)) v) weight_q
                         in case py_half (py_add (value_range self) 1) of
                              Inl e \<Rightarrow> Inl e
                            | Inr c \<Rightarrow> Inr (map (\<lambda>v. fsub v (to_f32 c)) scaled)))))"

text \<open>The forward function with the correctly rounded \<open>tanh\<close>.\<close>

definition weight_quantize_fn_forward :: "weight_quantize_fn \<Rightarrow> tensor \<Rightarrow> error + tensor" where
  "weight_quantize_fn_forward = weight_quantize_fn_forward_with tanh_cr"

text \<open>
  \<^verbatim>\<open>
  class activation_quantize_fn(nn.Module):
      def __init__(self, n_bits):
          super(activation_quantize_fn, self).__init__()
          assert n_bits <= 8 or n_bits == 32
          self.n_bits = n_bits
          self.uniform_q = get_uniform_quantizer(n_bits)

      def forward(self, x):
          if self.n_bits == 32:
              activation_q = x
          else:
              activation_q = (2 ** self.n_bits - 1) * self.uniform_q(torch.clamp(x, 0, 1))
          return activation_q
  \<close>
  The left operand of the product is evaluated before the quantizer is called.
\<close>

record activation_quantize_fn =
  a_n_bits :: int
  a_uniform_q :: "tensor \<Rightarrow> error + tensor"

definition activation_quantize_fn_init :: "int \<Rightarrow> error + activation_quantize_fn" where
  "activation_quantize_fn_init k =
     (if k \<le> 8 \<or> k = 32 then Inr \<lparr>a_n_bits = k, a_uniform_q = qfn_forward k\<rparr>
      else Inl AssertionError)"

definition activation_quantize_fn_forward ::
  "activation_quantize_fn \<Rightarrow> tensor \<Rightarrow> error + tensor" where
  "activation_quantize_fn_forward self x =
     (if a_n_bits self = 32 then Inr x
      else
        (case py_pow2 (a_n_bits self) of
           Inl e \<Rightarrow> Inl e
         | Inr p \<Rightarrow>
             (case a_uniform_q self (map (fclamp 0 1) x) of
                Inl e \<Rightarrow> Inl e
              | Inr q \<Rightarrow> Inr (map (\<lambda>v. fmul (to_f32 (py_sub p 1)) v) q))))"

text \<open>Constructing a module for a bit-width and calling it once.\<close>

definition weight_quantize_with :: "(real \<Rightarrow> real) \<Rightarrow> int \<Rightarrow> tensor \<Rightarrow> error + tensor" where
  "weight_quantize_with th k x =
     (case weight_quantize_fn_init k of
        Inl e \<Rightarrow> Inl e
      | Inr self \<Rightarrow> weight_quantize_fn_forward_with th self x)"

definition weight_quantize :: "int \<Rightarrow> tensor \<Rightarrow> error + tensor" where
  "weight_quantize = weight_quantize_with tanh_cr"

definition activation_quantize :: "int \<Rightarrow> tensor \<Rightarrow> error + tensor" where
  "activation_quantize k x =
     (case activation_quantize_fn_init k of
        Inl e \<Rightarrow> Inl e
      | Inr self \<Rightarrow> activation_quantize_fn_forward self x)"

section \<open>Notions of the specification\<close>

text \<open>The uniform grid \<open>{0, 1/n, ..., 1}\<close> with \<open>n = 2^k - 1\<close>.\<close>

definition on_grid :: "int \<Rightarrow> fval \<Rightarrow> bool" where
  "on_grid k u = (\<exists>j\<in>{0 .. 2 ^ nat k - 1}. u = Fin (of_int j / (2 ^ nat k - 1)))"

text \<open>The float32 values nearest to the points of that grid.\<close>

definition near_grid :: "int \<Rightarrow> fval \<Rightarrow> bool" where
  "near_grid k u = (\<exists>j\<in>{0 .. 2 ^ nat k - 1}. u = f32_round (of_int j / (2 ^ nat k - 1)))"

text \<open>A tensor of finite numbers, all of them in \<open>[0,1]\<close>.\<close>

definition in_unit :: "real list \<Rightarrow> bool" where
  "in_unit x = list_all (\<lambda>v. 0 \<le> v \<and> v \<le> 1) x"

text \<open>A call produced a finite output: it returned, and every element is a number.\<close>

fun finite_result :: "error + tensor \<Rightarrow> bool" where
  "finite_result (Inl e) = False"
| "finite_result (Inr t) = list_all is_fin t"

text \<open>A constructor or a call returned instead of raising.\<close>

fun succeeds :: "error + 'a \<Rightarrow> bool" where
  "succeeds (Inl e) = False"
| "succeeds (Inr m) = True"

text \<open>The quantizer as section 4.1 of the specification words it, on one finite element.\<close>

definition spec_Quantizer :: "int \<Rightarrow> real \<Rightarrow> real" where
  "spec_Quantizer k r =
     (if k = 32 then r
      else if k = 1 then sgn r
      else of_int (round_half_even (r * (2 ^ nat k - 1))) / (2 ^ nat k - 1))"

text \<open>The same quantizer in the arithmetic of the tensor elements.\<close>

definition spec_Quantizer_f32 :: "int \<Rightarrow> fval \<Rightarrow> fval" where
  "spec_Quantizer_f32 k v =
     (if k = 32 then v
      else if k = 1 then fsign v
      else fdiv (fround (fmul v (Fin (2 ^ nat k - 1)))) (Fin (2 ^ nat k - 1)))"

text \<open>An element that is not negative; every absolute value is one.\<close>

fun nonneg_val :: "fval \<Rightarrow> bool" where
  "nonneg_val (Fin a) = (0 \<le> a)"
| "nonneg_val PInf = True"
| "nonneg_val NInf = False"
| "nonneg_val NaN = True"

section \<open>Rounding\<close>

lemma two_powi_less: "(2::real) powi x < 2 powi y \<Longrightarrow> x < y"
  using power_int_increasing [of y x "2::real"] by (cases "x < y") auto

lemma two_powi_le: "(2::real) powi x \<le> 2 powi y \<Longrightarrow> x \<le> y"
  using power_int_strict_increasing [of y x "2::real"] by (cases "x \<le> y") auto

lemma exp_search_top: "2 powi e \<le> a \<Longrightarrow> exp_search f e a = e"
  by (cases f) simp_all

lemma exp_search_spec:
  "a < 2 powi (e + 1) \<Longrightarrow>
   e - int f \<le> exp_search f e a \<and> exp_search f e a \<le> e
   \<and> a < 2 powi (exp_search f e a + 1)
   \<and> (exp_search f e a = e - int f \<or> 2 powi (exp_search f e a) \<le> a)"
proof (induction f arbitrary: e)
  case 0
  then show ?case by simp
next
  case (Suc f)
  show ?case
  proof (cases "2 powi e \<le> a")
    case True
    then show ?thesis using Suc.prems by simp
  next
    case False
    then have "a < 2 powi (e - 1 + 1)" by simp
    from Suc.IH [OF this] False show ?thesis by auto
  qed
qed

lemma fp_exp_spec:
  assumes "1 \<le> emax" "a < 2 powi (emax + 1)"
  shows "1 - emax \<le> fp_exp emax a \<and> fp_exp emax a \<le> emax
         \<and> a < 2 powi (fp_exp emax a + 1)
         \<and> (fp_exp emax a = 1 - emax \<or> 2 powi (fp_exp emax a) \<le> a)"
proof -
  have "emax - int (nat (2 * emax - 1)) = 1 - emax" using assms(1) by simp
  then show ?thesis
    using exp_search_spec [OF assms(2), of "nat (2 * emax - 1)"]
    unfolding fp_exp_def by (simp only:)
qed

lemma fp_exp_eq:
  assumes "1 \<le> emax" "1 - emax \<le> e" "e \<le> emax" "2 powi e \<le> a" "a < 2 powi (e + 1)"
  shows "fp_exp emax a = e"
proof -
  have "a < 2 powi (emax + 1)"
    using assms(5) power_int_increasing [of "e + 1" "emax + 1" "2::real"] assms(3) by simp
  from fp_exp_spec [OF assms(1) this]
  have s: "1 - emax \<le> fp_exp emax a" "a < 2 powi (fp_exp emax a + 1)"
    "fp_exp emax a = 1 - emax \<or> 2 powi (fp_exp emax a) \<le> a" by auto
  have "2 powi e < (2::real) powi (fp_exp emax a + 1)" using assms(4) s(2) by simp
  then have le: "e \<le> fp_exp emax a" using two_powi_less by fastforce
  from s(3) have "fp_exp emax a \<le> e"
  proof
    assume "fp_exp emax a = 1 - emax" then show ?thesis using assms(2) by simp
  next
    assume "2 powi (fp_exp emax a) \<le> a"
    then have "2 powi (fp_exp emax a) < (2::real) powi (e + 1)" using assms(5) by simp
    then show ?thesis using two_powi_less by fastforce
  qed
  with le show ?thesis by simp
qed

lemma fp_exp_small:
  assumes "1 \<le> emax" "a < 2 powi (1 - emax)"
  shows "fp_exp emax a = 1 - emax"
proof -
  have lt: "a < 2 powi (emax + 1)"
    using assms(2) power_int_increasing [of "1 - emax" "emax + 1" "2::real"] assms(1) by simp
  from fp_exp_spec [OF assms(1) lt]
  have s: "1 - emax \<le> fp_exp emax a"
    "fp_exp emax a = 1 - emax \<or> 2 powi (fp_exp emax a) \<le> a" by auto
  from s(2) show ?thesis
  proof
    assume "2 powi (fp_exp emax a) \<le> a"
    then have "2 powi (fp_exp emax a) < (2::real) powi (1 - emax)" using assms(2) by simp
    then show ?thesis using two_powi_less s(1) by fastforce
  qed
qed

lemma fp_exp_big: "2 powi emax \<le> a \<Longrightarrow> fp_exp emax a = emax"
  by (simp add: fp_exp_def exp_search_top)

lemma round_half_even_of_int: "round_half_even (of_int j) = j"
  by (simp add: round_half_even_def)

lemma round_half_even_err: "\<bar>of_int (round_half_even y) - y\<bar> \<le> 1 / 2"
  unfolding round_half_even_def Let_def by (auto; linarith)

lemma round_half_even_bounds:
  assumes "of_int a \<le> r" "r \<le> of_int b"
  shows "a \<le> round_half_even r \<and> round_half_even r \<le> b"
proof -
  have lo: "a \<le> \<lfloor>r\<rfloor>" using assms(1) by (simp add: le_floor_iff)
  have hi: "\<lfloor>r\<rfloor> \<le> b" using assms(2) by (simp add: floor_le_iff)
  show ?thesis
  proof (cases "r = of_int \<lfloor>r\<rfloor>")
    case True
    then have "round_half_even r = \<lfloor>r\<rfloor>"
      by (simp add: round_half_even_def Let_def)
    then show ?thesis using lo hi by simp
  next
    case False
    then have "of_int \<lfloor>r\<rfloor> < r" by (metis of_int_floor_le order_less_le)
    then have "\<lfloor>r\<rfloor> < b" using assms(2) by linarith
    moreover have "round_half_even r = \<lfloor>r\<rfloor> \<or> round_half_even r = \<lfloor>r\<rfloor> + 1"
      by (simp add: round_half_even_def Let_def)
    ultimately show ?thesis using lo by auto
  qed
qed

lemma round_half_even_near:
  assumes "\<bar>y - of_int j\<bar> < 1 / 2"
  shows "round_half_even y = j"
proof -
  have "\<bar>of_int (round_half_even y) - y\<bar> \<le> 1 / 2" by (rule round_half_even_err)
  with assms have "\<bar>real_of_int (round_half_even y) - of_int j\<bar> < 1" by linarith
  then have "\<bar>real_of_int (round_half_even y - j)\<bar> < 1" by simp
  then have "\<bar>round_half_even y - j\<bar> < 1" by linarith
  then show ?thesis by simp
qed


lemma fp_round_zero: "fp_round p emax 0 = Fin 0"
proof -
  have "0 < (2::real) powi (emax + 1)" by simp
  then show ?thesis
    by (simp add: fp_round_def Let_def round_half_even_def not_le del: zero_less_power_int)
qed

lemma fp_round_bounded:
  assumes "1 \<le> emax" "1 \<le> p" "int p - 1 \<le> emax"
    and "of_int a \<le> r" "r \<le> of_int b"
    and "\<bar>a\<bar> \<le> 2 ^ (p - 1)" "\<bar>b\<bar> \<le> 2 ^ (p - 1)"
  shows "\<exists>v. fp_round p emax r = Fin v \<and> of_int a \<le> v \<and> v \<le> of_int b"
proof -
  let ?P = "int p - 1"
  define e where "e = fp_exp emax \<bar>r\<bar>"
  have "int p - 1 = int (p - 1)" using assms(2) by simp
  then have PP: "(2::real) powi ?P = 2 ^ (p - 1)" by (simp only: power_int_of_nat)
  have ra: "- (2 ^ (p - 1)) \<le> (of_int a :: real)"
  proof -
    have "- (2 ^ (p - 1)) \<le> a" using assms(6) by linarith
    then have "real_of_int (- (2 ^ (p - 1))) \<le> of_int a" by (simp only: of_int_le_iff)
    then show ?thesis by simp
  qed
  have rb: "(of_int b :: real) \<le> 2 ^ (p - 1)"
  proof -
    have "b \<le> 2 ^ (p - 1)" using assms(7) by linarith
    then have "real_of_int b \<le> of_int (2 ^ (p - 1))" by (simp only: of_int_le_iff)
    then show ?thesis by simp
  qed
  have absr: "\<bar>r\<bar> \<le> 2 powi ?P"
    using ra rb assms(4,5) unfolding PP by linarith
  have lt: "\<bar>r\<bar> < 2 powi (emax + 1)"
    using absr power_int_strict_increasing [of ?P "emax + 1" "2::real"] assms(3) by simp
  from fp_exp_spec [OF assms(1) lt]
  have s: "e = 1 - emax \<or> 2 powi e \<le> \<bar>r\<bar>" unfolding e_def by auto
  have eP: "e \<le> ?P"
    using s
  proof
    assume "e = 1 - emax" then show ?thesis using assms(1,2) by simp
  next
    assume "2 powi e \<le> \<bar>r\<bar>"
    then have "(2::real) powi e \<le> 2 powi ?P" using absr by simp
    then show ?thesis by (rule two_powi_le)
  qed
  define K where "K = nat (?P - e)"
  define u where "u = (2::real) powi (e - ?P)"
  have u: "u = 1 / 2 ^ K"
    using eP unfolding u_def K_def
    by (simp add: power_int_def nat_diff_distrib' field_simps)
  have upos: "0 < u" unfolding u_def by simp
  have ru: "r / u = r * 2 ^ K" by (simp add: u)
  have "of_int (a * 2 ^ K) \<le> r / u" using assms(4) by (simp add: ru)
  moreover have "r / u \<le> of_int (b * 2 ^ K)" using assms(5) by (simp add: ru)
  ultimately have rb2: "a * 2 ^ K \<le> round_half_even (r / u)" "round_half_even (r / u) \<le> b * 2 ^ K"
    using round_half_even_bounds by blast+
  define v where "v = real_of_int (round_half_even (r / u)) * u"
  have "real_of_int (a * 2 ^ K) \<le> of_int (round_half_even (r / u))"
    using rb2(1) by (simp only: of_int_le_iff)
  then have va: "of_int a \<le> v" unfolding v_def u by (simp add: field_simps)
  have "real_of_int (round_half_even (r / u)) \<le> of_int (b * 2 ^ K)"
    using rb2(2) by (simp only: of_int_le_iff)
  then have vb: "v \<le> of_int b" unfolding v_def u by (simp add: field_simps)
  have big: "(2::real) ^ (p - 1) < 2 powi (emax + 1)"
    using power_int_strict_increasing [of ?P "emax + 1" "2::real"] assms(3) PP by simp
  have "\<not> 2 powi (emax + 1) \<le> v" using vb rb big by linarith
  moreover have "\<not> v \<le> - (2 powi (emax + 1))" using va ra big by linarith
  ultimately have "fp_round p emax r = Fin v"
    unfolding fp_round_def Let_def e_def [symmetric] u_def [symmetric] v_def [symmetric]
    by simp
  with va vb show ?thesis by blast
qed

lemma fp_round_int:
  assumes "1 \<le> emax" "1 \<le> p" "int p - 1 \<le> emax" "\<bar>m\<bar> \<le> 2 ^ (p - 1)"
  shows "fp_round p emax (of_int m) = Fin (of_int m)"
  using fp_round_bounded [OF assms(1-3), of m "of_int m" m] assms(4) by auto

lemma fp_round_rel_err:
  assumes "1 \<le> emax" "1 \<le> p"
    and "2 powi (1 - emax) \<le> \<bar>r\<bar>" "\<bar>r\<bar> \<le> 2 powi emax"
  shows "\<exists>v. fp_round p emax r = Fin v \<and> \<bar>v - r\<bar> \<le> \<bar>r\<bar> / 2 ^ p"
proof -
  let ?P = "int p - 1"
  define e where "e = fp_exp emax \<bar>r\<bar>"
  have lt: "\<bar>r\<bar> < 2 powi (emax + 1)"
    using assms(4) power_int_strict_increasing [of emax "emax + 1" "2::real"] by simp
  from fp_exp_spec [OF assms(1) lt]
  have s: "e = 1 - emax \<or> 2 powi e \<le> \<bar>r\<bar>" unfolding e_def by auto
  then have ge: "2 powi e \<le> \<bar>r\<bar>" using assms(3) by auto
  define u where "u = (2::real) powi (e - ?P)"
  have upos: "0 < u" unfolding u_def by simp
  define v where "v = real_of_int (round_half_even (r / u)) * u"
  have "\<bar>real_of_int (round_half_even (r / u)) - r / u\<bar> \<le> 1 / 2"
    by (rule round_half_even_err)
  then have "\<bar>real_of_int (round_half_even (r / u)) - r / u\<bar> * u \<le> 1 / 2 * u"
    using upos by (intro mult_right_mono) auto
  moreover have "\<bar>real_of_int (round_half_even (r / u)) - r / u\<bar> * u = \<bar>v - r\<bar>"
  proof -
    have "v - r = (real_of_int (round_half_even (r / u)) - r / u) * u"
      using upos unfolding v_def by (simp add: field_simps)
    then show ?thesis using upos by (simp add: abs_mult)
  qed
  ultimately have err: "\<bar>v - r\<bar> \<le> u / 2" by simp
  have "int p - 1 = int (p - 1)" using assms(2) by simp
  then have "(2::real) powi ?P = 2 ^ (p - 1)" by (simp only: power_int_of_nat)
  moreover have "(2::real) powi (e - ?P) = 2 powi e / 2 powi ?P"
    by (rule power_int_diff) simp
  ultimately have "u = 2 powi e / 2 ^ (p - 1)"
    unfolding u_def by simp
  then have "u / 2 = 2 powi e / 2 ^ p"
    using assms(2) by (cases p) simp_all
  also have "\<dots> \<le> \<bar>r\<bar> / 2 ^ p" using ge by (simp add: divide_right_mono)
  finally have u2: "u / 2 \<le> \<bar>r\<bar> / 2 ^ p" .
  with err have rel: "\<bar>v - r\<bar> \<le> \<bar>r\<bar> / 2 ^ p" by linarith
  have "(2::real) \<le> 2 ^ p" using assms(2) by (cases p) (simp_all add: add_increasing)
  then have "\<bar>r\<bar> / 2 ^ p \<le> \<bar>r\<bar> / 2"
    by (intro divide_left_mono) auto
  with rel have "\<bar>v\<bar> \<le> \<bar>r\<bar> + \<bar>r\<bar> / 2" by linarith
  also have "\<dots> < 2 * 2 powi emax"
  proof -
    have "0 < (2::real) powi emax" by simp
    then show ?thesis using assms(4) by linarith
  qed
  also have "\<dots> = 2 powi (emax + 1)" by (simp add: power_int_add)
  finally have vb: "\<bar>v\<bar> < 2 powi (emax + 1)" .
  have "fp_round p emax r = Fin v"
    unfolding fp_round_def Let_def e_def [symmetric] u_def [symmetric] v_def [symmetric]
    using vb by auto
  with rel show ?thesis by blast
qed

section \<open>Facts about the formats\<close>

lemma f32_round_int: "\<bar>m\<bar> \<le> 2 ^ 23 \<Longrightarrow> f32_round (of_int m) = Fin (of_int m)"
  unfolding f32_round_def using fp_round_int [of 127 24 m] by simp

lemma f64_round_int: "\<bar>m\<bar> \<le> 2 ^ 52 \<Longrightarrow> f64_round (of_int m) = Fin (of_int m)"
  unfolding f64_round_def using fp_round_int [of 1023 53 m] by simp

lemma f32_round_zero: "f32_round 0 = Fin 0"
  by (simp add: f32_round_def fp_round_zero)

lemma steps_range:
  assumes "2 \<le> k" "k \<le> 8"
  shows "(3::int) \<le> 2 ^ nat k - 1" "(2::int) ^ nat k - 1 \<le> 255"
proof -
  have "(2::int) ^ 2 \<le> 2 ^ nat k"
    using assms by (intro power_increasing) auto
  then show "(3::int) \<le> 2 ^ nat k - 1" by simp
  have "(2::int) ^ nat k \<le> 2 ^ 8"
    using assms by (intro power_increasing) auto
  then show "(2::int) ^ nat k - 1 \<le> 255" by simp
qed

lemma qfn_scale:
  assumes "2 \<le> k" "k \<le> 8"
  shows "py_pow2 k = Inr (PyInt (2 ^ nat k))"
    and "py_float_of_int (2 ^ nat k - 1) = Inr (Fin (2 ^ nat k - 1))"
    and "f32_round (2 ^ nat k - 1) = Fin (2 ^ nat k - 1)"
proof -
  let ?n = "(2::int) ^ nat k - 1"
  note r = steps_range [OF assms]
  show "py_pow2 k = Inr (PyInt (2 ^ nat k))" using assms by (simp add: py_pow2_def)
  have "\<bar>?n\<bar> \<le> 2 ^ 52" "\<bar>?n\<bar> \<le> 2 ^ 23" using r by simp_all
  then have a: "f64_round (of_int ?n) = Fin (of_int ?n)" "f32_round (of_int ?n) = Fin (of_int ?n)"
    by (simp_all only: f64_round_int f32_round_int)
  show "py_float_of_int (2 ^ nat k - 1) = Inr (Fin (2 ^ nat k - 1))"
    using a(1) by (simp add: py_float_of_int_def)
  show "f32_round (2 ^ nat k - 1) = Fin (2 ^ nat k - 1)"
    using a(2) by simp
qed

lemma qfn_forward_eq:
  assumes "2 \<le> k" "k \<le> 8"
  shows "qfn_forward k t =
         Inr (map (\<lambda>v. fdiv (fround (fmul v (Fin (2 ^ nat k - 1)))) (Fin (2 ^ nat k - 1))) t)"
proof -
  have k: "k \<noteq> 32" "k \<noteq> 1" using assms by auto
  show ?thesis
    unfolding qfn_forward_def using k by (simp add: qfn_scale [OF assms])
qed

lemma f32_round_unit_scaled:
  assumes "0 \<le> r" "r \<le> of_int N" "0 \<le> N" "N \<le> 255"
  shows "\<exists>v. f32_round r = Fin v \<and> 0 \<le> v \<and> v \<le> of_int N"
  unfolding f32_round_def
  using fp_round_bounded [of 127 24 0 r N] assms by simp

lemma quantize_level:
  assumes "2 \<le> k" "k \<le> 8" "0 \<le> v" "v \<le> 1"
  shows "\<exists>j\<in>{0 .. 2 ^ nat k - 1}.
           fdiv (fround (fmul (Fin v) (Fin (2 ^ nat k - 1)))) (Fin (2 ^ nat k - 1)) =
           f32_round (of_int j / (2 ^ nat k - 1))"
proof -
  let ?n = "(2::int) ^ nat k - 1"
  note r = steps_range [OF assms(1,2)]
  have n: "(2::real) ^ nat k - 1 = of_int ?n" by simp
  have npos: "0 < (of_int ?n :: real)" using r(1) by linarith
  have lo: "0 \<le> v * of_int ?n" using assms(3) npos by simp
  have hi: "v * of_int ?n \<le> of_int ?n"
    using mult_right_mono [OF assms(4), of "of_int ?n"] npos by simp
  from f32_round_unit_scaled [OF lo hi] r
  obtain y where y: "f32_round (v * of_int ?n) = Fin y" "0 \<le> y" "y \<le> of_int ?n" by auto
  have "of_int 0 \<le> y" using y(2) by simp
  from round_half_even_bounds [OF this y(3)]
  have j: "round_half_even y \<in> {0 .. ?n}" by simp
  have "fdiv (fround (fmul (Fin v) (Fin (of_int ?n)))) (Fin (of_int ?n)) =
        f32_round (of_int (round_half_even y) / of_int ?n)"
    using y(1) npos by simp
  with j show ?thesis unfolding n by blast
qed

lemma f32_round_at:
  assumes "- 126 \<le> e" "e \<le> 127" "2 powi e \<le> \<bar>r\<bar>" "\<bar>r\<bar> < 2 powi (e + 1)"
    and "v = of_int (round_half_even (r / 2 powi (e - 23))) * 2 powi (e - 23)"
    and "\<bar>v\<bar> < 2 powi 128"
  shows "f32_round r = Fin v"
proof -
  have "fp_exp 127 \<bar>r\<bar> = e"
    using assms(1-4) by (intro fp_exp_eq) simp_all
  moreover have "\<not> 2 powi 128 \<le> v" "\<not> v \<le> - (2 powi 128)"
    using assms(6) by linarith+
  ultimately show ?thesis
    using assms(5) unfolding f32_round_def fp_round_def Let_def by simp
qed

lemma f32_round_near:
  assumes "- 126 \<le> e" "e \<le> 127" "2 powi e \<le> \<bar>r\<bar>" "\<bar>r\<bar> < 2 powi (e + 1)"
    and "\<bar>r / 2 powi (e - 23) - of_int j\<bar> < 1 / 2"
    and "v = of_int j * 2 powi (e - 23)"
    and "\<bar>v\<bar> < 2 powi 128"
  shows "f32_round r = Fin v"
  using f32_round_at [OF assms(1-4), of v] round_half_even_near [OF assms(5)] assms(6,7)
  by simp

lemma ex_a: "f32_round (3 / 2) = Fin (3 / 2)"
  by (rule f32_round_near [where e = 0 and j = 12582912]) simp_all

lemma ex_b: "f32_round (2 / 3) = Fin (11184811 / 16777216)"
  by (rule f32_round_near [where e = "- 1" and j = 11184811]) simp_all

lemma ex_c: "f32_round (33554433 / 67108864) = Fin (1 / 2)"
  by (rule f32_round_near [where e = "- 1" and j = 8388608]) simp_all

lemma ex_d: "f32_round (1 / 2) = Fin (1 / 2)"
  by (rule f32_round_near [where e = "- 1" and j = 8388608]) simp_all

lemma ex_e: "f32_round (11184811 / 67108864) = Fin (11184811 / 67108864)"
  by (rule f32_round_near [where e = "- 3" and j = 11184811]) simp_all

lemma rhe_half: "round_half_even (1 / 2) = 0" "round_half_even (3 / 2) = 2"
  by (simp_all add: round_half_even_def)

lemma round_half_even_up:
  assumes "even N" "of_int N - 1 / 2 \<le> y"
  shows "N \<le> round_half_even y"
proof (cases "of_int N \<le> y")
  case True
  then have "N \<le> \<lfloor>y\<rfloor>" by (simp add: le_floor_iff)
  moreover have "\<lfloor>y\<rfloor> \<le> round_half_even y"
    by (simp add: round_half_even_def Let_def)
  ultimately show ?thesis by simp
next
  case False
  then have f: "\<lfloor>y\<rfloor> = N - 1" using assms(2) by (simp add: floor_eq_iff)
  then have "odd \<lfloor>y\<rfloor>" using assms(1) by simp
  moreover have "1 / 2 \<le> y - of_int \<lfloor>y\<rfloor>" using f assms(2) by simp
  ultimately have "round_half_even y = \<lfloor>y\<rfloor> + 1"
    by (auto simp: round_half_even_def Let_def)
  then show ?thesis using f by simp
qed

lemma round_half_even_down:
  assumes "even N" "y \<le> - (of_int N - 1 / 2)"
  shows "round_half_even y \<le> - N"
proof (cases "y \<le> - of_int N")
  case True
  then have "y \<le> of_int (- N)" by simp
  moreover have "of_int (\<lfloor>y\<rfloor>) \<le> y" by simp
  ultimately show ?thesis
    using round_half_even_bounds [of "\<lfloor>y\<rfloor>" y "- N"] by blast
next
  case False
  then have f: "\<lfloor>y\<rfloor> = - N" using assms(2) by (simp add: floor_eq_iff)
  then have "even \<lfloor>y\<rfloor>" using assms(1) by simp
  moreover have "y - of_int \<lfloor>y\<rfloor> \<le> 1 / 2" using f assms(2) by simp
  ultimately have "round_half_even y = \<lfloor>y\<rfloor>"
    by (auto simp: round_half_even_def Let_def)
  then show ?thesis using f by simp
qed

lemma round_half_even_below:
  assumes "y < of_int N - 1 / 2"
  shows "round_half_even y \<le> N - 1"
proof -
  have "\<bar>of_int (round_half_even y) - y\<bar> \<le> 1 / 2" by (rule round_half_even_err)
  with assms have "real_of_int (round_half_even y) < of_int N" by linarith
  then have "round_half_even y < N" by (simp only: of_int_less_iff)
  then show ?thesis by simp
qed

lemma round_half_even_above:
  assumes "- (of_int N - 1 / 2) < y"
  shows "- (N - 1) \<le> round_half_even y"
proof -
  have "\<bar>of_int (round_half_even y) - y\<bar> \<le> 1 / 2" by (rule round_half_even_err)
  with assms have "- real_of_int N < of_int (round_half_even y)" by linarith
  then have "real_of_int (- N) < of_int (round_half_even y)" by simp
  then have "- N < round_half_even y" by (simp only: of_int_less_iff)
  then show ?thesis by simp
qed


lemma fp_scale:
  assumes "1 \<le> p"
  shows "real_of_int (2 ^ p) * 2 powi (e - (int p - 1)) = 2 powi (e + 1)"
proof -
  have "real_of_int (2 ^ p) = 2 powi (int p)" by simp
  moreover have "(2::real) powi (int p) * 2 powi (e - (int p - 1)) = 2 powi (int p + (e - (int p - 1)))"
    by (rule power_int_add [symmetric]) simp
  ultimately show ?thesis by (simp add: algebra_simps)
qed

lemma fp_threshold:
  "(real_of_int (2 ^ p) - 1 / 2) * 2 powi (emax - (int p - 1)) =
   2 powi (emax + 1) - 2 powi (emax - int p)"
proof (cases "1 \<le> p")
  case True
  have "(2::real) powi (emax - (int p - 1)) = 2 powi (emax - int p + 1)" by (simp add: algebra_simps)
  also have "\<dots> = 2 powi (emax - int p) * 2" by (simp add: power_int_add)
  finally have h: "1 / 2 * 2 powi (emax - (int p - 1)) = (2::real) powi (emax - int p)" by simp
  show ?thesis
    using fp_scale [OF True, of emax] h by (simp only: left_diff_distrib)
next
  case False
  then have "p = 0" by simp
  then show ?thesis by (simp add: power_int_add algebra_simps)
qed

lemma fp_round_overflow_pos:
  assumes "1 \<le> emax" "1 \<le> p" "2 powi (emax + 1) - 2 powi (emax - int p) \<le> r"
  shows "fp_round p emax r = PInf"
proof -
  let ?P = "int p - 1"
  define u where "u = (2::real) powi (emax - ?P)"
  have upos: "0 < u" unfolding u_def by simp
  have "(2::real) powi (emax - int p) \<le> 2 powi emax"
    by (intro power_int_increasing) auto
  moreover have "(2::real) powi (emax + 1) = 2 * 2 powi emax" by (simp add: power_int_add)
  ultimately have ge: "2 powi emax \<le> r" using assms(3) by linarith
  have rpos: "0 < r" using ge zero_less_power_int [of "2::real" emax] by linarith
  have e: "fp_exp emax \<bar>r\<bar> = emax" using ge rpos by (intro fp_exp_big) simp
  have "(real_of_int (2 ^ p) - 1 / 2) * u \<le> r"
    using assms(3) unfolding u_def fp_threshold .
  then have "real_of_int (2 ^ p) - 1 / 2 \<le> r / u"
    using upos by (simp add: pos_le_divide_eq)
  moreover have "even ((2::int) ^ p)" using assms(2) by simp
  ultimately have "2 ^ p \<le> round_half_even (r / u)" by (intro round_half_even_up)
  then have "real_of_int (2 ^ p) \<le> of_int (round_half_even (r / u))"
    by (simp only: of_int_le_iff)
  then have "real_of_int (2 ^ p) * u \<le> of_int (round_half_even (r / u)) * u"
    using upos by (intro mult_right_mono) auto
  then have "2 powi (emax + 1) \<le> of_int (round_half_even (r / u)) * u"
    unfolding u_def fp_scale [OF assms(2)] .
  then show ?thesis
    unfolding fp_round_def Let_def e u_def by simp
qed

lemma fp_round_overflow_neg:
  assumes "1 \<le> emax" "1 \<le> p" "r \<le> - (2 powi (emax + 1) - 2 powi (emax - int p))"
  shows "fp_round p emax r = NInf"
proof -
  let ?P = "int p - 1"
  define u where "u = (2::real) powi (emax - ?P)"
  have upos: "0 < u" unfolding u_def by simp
  have "(2::real) powi (emax - int p) \<le> 2 powi emax"
    by (intro power_int_increasing) auto
  moreover have "(2::real) powi (emax + 1) = 2 * 2 powi emax" by (simp add: power_int_add)
  ultimately have ge: "r \<le> - (2 powi emax)" using assms(3) by linarith
  have rneg: "r < 0" using ge zero_less_power_int [of "2::real" emax] by linarith
  have e: "fp_exp emax \<bar>r\<bar> = emax" using ge rneg by (intro fp_exp_big) simp
  have "r \<le> - ((real_of_int (2 ^ p) - 1 / 2) * u)"
    using assms(3) unfolding u_def fp_threshold .
  then have "r \<le> (- (real_of_int (2 ^ p) - 1 / 2)) * u" by (simp only: mult_minus_left)
  then have "r / u \<le> - (real_of_int (2 ^ p) - 1 / 2)"
    using upos by (simp only: pos_divide_le_eq)
  moreover have "even ((2::int) ^ p)" using assms(2) by simp
  ultimately have "round_half_even (r / u) \<le> - (2 ^ p)" by (intro round_half_even_down)
  then have "real_of_int (round_half_even (r / u)) \<le> of_int (- (2 ^ p))"
    by (simp only: of_int_le_iff)
  then have "of_int (round_half_even (r / u)) * u \<le> real_of_int (- (2 ^ p)) * u"
    using upos by (intro mult_right_mono) auto
  also have "\<dots> = - (real_of_int (2 ^ p) * u)" by simp
  also have "\<dots> = - (2 powi (emax + 1))" unfolding u_def fp_scale [OF assms(2)] ..
  finally have v: "of_int (round_half_even (r / u)) * u \<le> - (2 powi (emax + 1))" .
  have "0 < (2::real) powi (emax + 1)" by simp
  with v have "\<not> 2 powi (emax + 1) \<le> of_int (round_half_even (r / u)) * u" by linarith
  with v show ?thesis
    unfolding fp_round_def Let_def e u_def by simp
qed


lemma fp_round_finite:
  assumes "1 \<le> emax" "1 \<le> p" "\<bar>r\<bar> < 2 powi (emax + 1) - 2 powi (emax - int p)"
  shows "\<exists>v. fp_round p emax r = Fin v"
proof -
  let ?P = "int p - 1"
  define e where "e = fp_exp emax \<bar>r\<bar>"
  define u where "u = (2::real) powi (e - ?P)"
  define m where "m = round_half_even (r / u)"
  have upos: "0 < u" unfolding u_def by simp
  have Nu: "real_of_int (2 ^ p) * u = 2 powi (e + 1)"
    unfolding u_def by (rule fp_scale [OF assms(2)])
  have "0 < (2::real) powi (emax - int p)" by simp
  with assms(3) have lt: "\<bar>r\<bar> < 2 powi (emax + 1)" by linarith
  from fp_exp_spec [OF assms(1) lt]
  have s: "e \<le> emax" "\<bar>r\<bar> < 2 powi (e + 1)" unfolding e_def by auto
  have "\<bar>real_of_int m * u\<bar> < 2 powi (emax + 1)"
  proof (cases "e = emax")
    case True
    have "\<bar>r\<bar> < (real_of_int (2 ^ p) - 1 / 2) * u"
      using assms(3) unfolding u_def True fp_threshold .
    then have "\<bar>r\<bar> / u < real_of_int (2 ^ p) - 1 / 2"
      using upos by (simp only: pos_divide_less_eq)
    then have a: "\<bar>r / u\<bar> < real_of_int (2 ^ p) - 1 / 2" using upos by simp
    then have "r / u < real_of_int (2 ^ p) - 1 / 2" by linarith
    then have hi: "m \<le> 2 ^ p - 1" unfolding m_def by (rule round_half_even_below)
    from a have "- (real_of_int (2 ^ p) - 1 / 2) < r / u" by linarith
    then have lo: "- (2 ^ p - 1) \<le> m" unfolding m_def by (rule round_half_even_above)
    from hi lo have "\<bar>m\<bar> \<le> 2 ^ p - 1" by linarith
    then have "real_of_int \<bar>m\<bar> \<le> of_int (2 ^ p - 1)" by (simp only: of_int_le_iff)
    then have "\<bar>real_of_int m\<bar> \<le> real_of_int (2 ^ p) - 1" by simp
    then have "\<bar>real_of_int m\<bar> * u \<le> (real_of_int (2 ^ p) - 1) * u"
      using upos by (intro mult_right_mono) auto
    also have "\<dots> = 2 powi (e + 1) - u" using Nu by (simp add: left_diff_distrib)
    also have "\<dots> < 2 powi (emax + 1)" using upos True by simp
    finally show ?thesis using upos by (simp add: abs_mult)
  next
    case False
    have "\<bar>r\<bar> < real_of_int (2 ^ p) * u" using s(2) Nu by simp
    then have "\<bar>r\<bar> / u < real_of_int (2 ^ p)"
      using upos by (simp only: pos_divide_less_eq)
    then have a: "\<bar>r / u\<bar> < real_of_int (2 ^ p)" using upos by simp
    then have "- real_of_int (2 ^ p) \<le> r / u" and b2: "r / u \<le> of_int (2 ^ p)" by linarith+
    then have b1: "of_int (- (2 ^ p)) \<le> r / u" by simp
    from round_half_even_bounds [OF b1 b2]
    have "\<bar>m\<bar> \<le> 2 ^ p" unfolding m_def by linarith
    then have "real_of_int \<bar>m\<bar> \<le> of_int (2 ^ p)" by (simp only: of_int_le_iff)
    then have "\<bar>real_of_int m\<bar> \<le> real_of_int (2 ^ p)" by simp
    then have "\<bar>real_of_int m\<bar> * u \<le> real_of_int (2 ^ p) * u"
      using upos by (intro mult_right_mono) auto
    also have "\<dots> = 2 powi (e + 1)" by (rule Nu)
    also have "\<dots> \<le> 2 powi emax"
      using s(1) False by (intro power_int_increasing) auto
    also have "\<dots> < 2 powi (emax + 1)"
      by (intro power_int_strict_increasing) auto
    finally show ?thesis using upos by (simp add: abs_mult)
  qed
  then have "\<not> 2 powi (emax + 1) \<le> real_of_int m * u"
    "\<not> real_of_int m * u \<le> - (2 powi (emax + 1))" by linarith+
  then have "fp_round p emax r = Fin (real_of_int m * u)"
    unfolding fp_round_def Let_def e_def [symmetric] u_def [symmetric] m_def [symmetric]
    by simp
  then show ?thesis by blast
qed

lemma py_float_of_int_succeeds:
  "succeeds (py_float_of_int i) = (\<bar>i\<bar> < 2 ^ 1024 - 2 ^ 970)"
proof -
  have T: "(2::real) powi (1023 + 1) - 2 powi (1023 - int 53) = of_int (2 ^ 1024 - 2 ^ 970)"
    by simp
  show ?thesis
  proof (cases "\<bar>i\<bar> < 2 ^ 1024 - 2 ^ 970")
    case True
    then have "real_of_int \<bar>i\<bar> < of_int (2 ^ 1024 - 2 ^ 970)" by (simp only: of_int_less_iff)
    then have "\<bar>real_of_int i\<bar> < 2 powi (1023 + 1) - 2 powi (1023 - int 53)"
      unfolding T by simp
    then obtain v where "fp_round 53 1023 (of_int i) = Fin v"
      using fp_round_finite [of 1023 53 "of_int i"] by auto
    then show ?thesis using True by (simp add: py_float_of_int_def f64_round_def)
  next
    case False
    then consider "2 ^ 1024 - 2 ^ 970 \<le> i" | "i \<le> - (2 ^ 1024 - 2 ^ 970)" by linarith
    then have "fp_round 53 1023 (of_int i) = PInf \<or> fp_round 53 1023 (of_int i) = NInf"
    proof cases
      case 1
      then have "real_of_int (2 ^ 1024 - 2 ^ 970) \<le> of_int i" by (simp only: of_int_le_iff)
      then have "2 powi (1023 + 1) - 2 powi (1023 - int 53) \<le> real_of_int i"
        unfolding T .
      then show ?thesis using fp_round_overflow_pos [of 1023 53 "of_int i"] by simp
    next
      case 2
      then have "real_of_int i \<le> of_int (- (2 ^ 1024 - 2 ^ 970))" by (simp only: of_int_le_iff)
      then have "real_of_int i \<le> - (2 powi (1023 + 1) - 2 powi (1023 - int 53))"
        unfolding T by simp
      then show ?thesis using fp_round_overflow_neg [of 1023 53 "of_int i"] by simp
    qed
    then show ?thesis using False by (auto simp: py_float_of_int_def f64_round_def)
  qed
qed

lemma f32_round_rel_err:
  assumes "2 powi (- 126) \<le> \<bar>r\<bar>" "\<bar>r\<bar> \<le> 2 powi 127"
  shows "\<exists>v. f32_round r = Fin v \<and> \<bar>v - r\<bar> \<le> \<bar>r\<bar> / 2 ^ 24"
  unfolding f32_round_def using fp_round_rel_err [of 127 24 r] assms by simp

lemma requantize_level:
  assumes "2 \<le> k" "k \<le> 8" "j \<in> {0 .. 2 ^ nat k - 1}"
  shows "fdiv (fround (fmul (f32_round (of_int j / (2 ^ nat k - 1))) (Fin (2 ^ nat k - 1))))
              (Fin (2 ^ nat k - 1)) =
         f32_round (of_int j / (2 ^ nat k - 1))"
proof -
  let ?n = "(2::int) ^ nat k - 1"
  define n :: real where "n = of_int ?n"
  note rg = steps_range [OF assms(1,2)]
  have n: "(2::real) ^ nat k - 1 = n" by (simp add: n_def)
  have n3: "3 \<le> n" "n \<le> 255" using rg unfolding n_def by linarith+
  have j0: "0 \<le> j" and jn: "real_of_int j \<le> n"
    using assms(3) unfolding n_def by (simp, simp only: of_int_le_iff, simp)
  show ?thesis
  proof (cases "j = 0")
    case True
    then show ?thesis using n3 by (simp add: n f32_round_zero round_half_even_def)
  next
    case False
    then have j1: "1 \<le> real_of_int j" using j0 by linarith
    define r where "r = real_of_int j / n"
    have rpos: "0 < r" unfolding r_def using j1 n3 by simp
    have rlo: "1 / 256 \<le> r"
    proof -
      have "1 / 256 \<le> 1 / n" using n3 by (simp add: field_simps)
      also have "\<dots> \<le> real_of_int j / n" using j1 n3 by (simp add: divide_right_mono)
      finally show ?thesis unfolding r_def .
    qed
    have rhi: "r \<le> 1" unfolding r_def using jn n3 by simp
    have "2 powi (- 126) \<le> (1 / 256 :: real)" by simp
    then have "2 powi (- 126) \<le> \<bar>r\<bar>" using rlo by linarith
    moreover have "\<bar>r\<bar> \<le> 2 powi 127" using rhi rpos by simp
    ultimately obtain w where w: "f32_round r = Fin w" "\<bar>w - r\<bar> \<le> \<bar>r\<bar> / 2 ^ 24"
      using f32_round_rel_err by blast
    define z where "z = w * n"
    have rn: "r * n = real_of_int j" unfolding r_def using n3 by simp
    have "\<bar>z - real_of_int j\<bar> = \<bar>w - r\<bar> * n"
    proof -
      have "z - real_of_int j = (w - r) * n" unfolding z_def using rn by (simp add: algebra_simps)
      then show ?thesis using n3 by (simp add: abs_mult)
    qed
    also have "\<dots> \<le> (\<bar>r\<bar> / 2 ^ 24) * n"
      using w(2) n3 by (intro mult_right_mono) auto
    also have "\<dots> = real_of_int j / 2 ^ 24" using rpos rn by simp
    also have "\<dots> \<le> 255 / 2 ^ 24" using jn n3 by simp
    finally have zj0: "\<bar>z - real_of_int j\<bar> \<le> 255 / 2 ^ 24" .
    have "(255 / 2 ^ 24 :: real) \<le> 1 / 65536" by simp
    with zj0 have zj: "\<bar>z - real_of_int j\<bar> \<le> 1 / 65536" by linarith
    have zlo: "1 / 2 \<le> z" using zj j1 by linarith
    have zhi: "z \<le> 256" using zj jn n3 by linarith
    have "2 powi (- 126) \<le> (1 / 2 :: real)" by simp
    then have "2 powi (- 126) \<le> \<bar>z\<bar>" using zlo by linarith
    moreover have "\<bar>z\<bar> \<le> 2 powi 127" using zlo zhi by simp
    ultimately obtain y where y: "f32_round z = Fin y" "\<bar>y - z\<bar> \<le> \<bar>z\<bar> / 2 ^ 24"
      using f32_round_rel_err by blast
    have "\<bar>z\<bar> \<le> 256" using zlo zhi by linarith
    then have "\<bar>z\<bar> / 2 ^ 24 \<le> 256 / 2 ^ 24" by (intro divide_right_mono) auto
    also have "\<dots> = (1 / 65536 :: real)" by simp
    finally have "\<bar>z\<bar> / 2 ^ 24 \<le> 1 / 65536" .
    with y(2) zj have "\<bar>y - real_of_int j\<bar> < 1 / 2" by linarith
    then have rj: "round_half_even y = j" by (rule round_half_even_near)
    have "fdiv (fround (fmul (f32_round r) (Fin n))) (Fin n) = f32_round r"
      using w(1) y(1) rj n3 unfolding z_def r_def by simp
    then show ?thesis unfolding n r_def .
  qed
qed

lemma clone_id: "clone g = g"
  by (induction g) simp_all

lemma py_float_of_int_error: "py_float_of_int i = Inl e \<Longrightarrow> e = OverflowError"
  by (auto simp: py_float_of_int_def split: fval.splits)

lemma py_pow2_succeeds: "succeeds (py_pow2 k) = (- (2 ^ 1024 - 2 ^ 970) < k)"
proof (cases "0 \<le> k")
  case True
  have "(0::int) < 2 ^ 1024 - 2 ^ 970" by simp
  with True have "- (2 ^ 1024 - 2 ^ 970) < k" by linarith
  with True show ?thesis by (simp add: py_pow2_def)
next
  case False
  then have "(\<bar>k\<bar> < 2 ^ 1024 - 2 ^ 970) = (- (2 ^ 1024 - 2 ^ 970) < k)" by linarith
  moreover have "succeeds (py_pow2 k) = succeeds (py_float_of_int k)"
    using False by (simp add: py_pow2_def split: sum.splits)
  ultimately show ?thesis by (simp only: py_float_of_int_succeeds)
qed

lemma py_pow2_error: "py_pow2 k = Inl e \<Longrightarrow> e = OverflowError"
  by (auto simp: py_pow2_def py_float_of_int_error split: if_splits sum.splits)

lemma f32_round_numeral [simp]:
  "f32_round 1 = Fin 1" "f32_round 2 = Fin 2" "f32_round 3 = Fin 3" "f32_round 4 = Fin 4"
  "f32_round 255 = Fin 255"
  using f32_round_int [of 1] f32_round_int [of 2] f32_round_int [of 3] f32_round_int [of 4]
    f32_round_int [of 255]
  by simp_all

lemma fp_nan [simp]:
  "fp_add rnd v NaN = NaN" "fp_mul rnd v NaN = NaN" "fp_div rnd v NaN = NaN"
  by (cases v; simp)+

lemma t_sum_zero: "t_sum (replicate n (Fin 0)) = Fin 0"
  by (induction n) (simp_all add: f32_round_zero)

lemma foldl_fmax_zero: "foldl fmax (Fin 0) (replicate n (Fin 0)) = Fin 0"
  by (induction n) simp_all

lemma t_mean_zero: "t_mean (replicate (Suc m) (Fin 0)) = Fin 0"
  by (simp add: t_mean_def t_sum_zero f32_round_zero del: replicate_Suc of_nat_Suc)

lemma py_half_pow2:
  assumes "2 \<le> k" "k \<le> 8"
  shows "\<exists>c. py_half (py_add (PyInt (2 ^ nat k - 1)) 1) = Inr c"
proof -
  have "(2::int) ^ nat k = 2 * 2 ^ (nat k - 1)"
    using assms by (cases "nat k") simp_all
  then have h: "real_of_int (2 ^ nat k) / 2 = of_int (2 ^ (nat k - 1))" by simp
  have "(2::int) ^ (nat k - 1) \<le> 2 ^ 52"
    using assms by (intro power_increasing) auto
  then have "\<bar>(2::int) ^ (nat k - 1)\<bar> \<le> 2 ^ 52" by simp
  then have "f64_round (of_int (2 ^ (nat k - 1))) = Fin (of_int (2 ^ (nat k - 1)))"
    by (rule f64_round_int)
  then show ?thesis by (simp add: h del: of_int_power)
qed

lemma not_grid: "\<not> on_grid 2 (Fin (11184811 / 16777216))"
proof
  assume "on_grid 2 (Fin (11184811 / 16777216))"
  then obtain j :: int where "Fin (11184811 / 16777216) = Fin (of_int j / (2 ^ nat 2 - 1))"
    unfolding on_grid_def by blast
  then have "(11184811 / 16777216 :: real) = of_int j / 3" by simp
  then have "real_of_int j * 16777216 = 33554433" by simp
  then have "real_of_int (j * 16777216) = real_of_int 33554433" by simp
  then have e: "j * 16777216 = 33554433" by (simp only: of_int_eq_iff)
  have "even (j * 16777216)" by simp
  moreover have "odd (33554433 :: int)" by simp
  ultimately show False using e by simp
qed

lemma q_ex: "qfn_forward 2 [Fin (1 / 2), Fin (11184811 / 67108864)]
       = Inr [Fin (11184811 / 16777216), Fin 0]"
  using qfn_forward_eq [of 2 "[Fin (1 / 2), Fin (11184811 / 67108864)]"]
  by (simp add: ex_a ex_b ex_c f32_round_zero rhe_half)

section \<open>The uniform quantizer on 2 to 8 bits\<close>

text \<open>
  Claim C1, as the code has it. For a bit-width \<open>k\<close> from 2 to 8 the forward function of the
  uniform quantizer returns, element by element, \<open>round (x * n) / n\<close> with \<open>n = 2^k - 1\<close>
  computed on floats: the product and the quotient are each rounded to float32, and \<open>round\<close>
  is torch's rounding, ties to even. When every element of \<open>x\<close> lies in \<open>[0,1]\<close>, every
  element of the result is the float32 nearest to a point \<open>j/n\<close> of the grid
  \<open>{0, 1/n, ..., 1}\<close>; it is that point itself only where \<open>j/n\<close> is a float32.
\<close>

theorem qfn_forward_rounds_near_grid:
  assumes "2 \<le> k" "k \<le> 8"
  shows "qfn_forward k t =
           Inr (map (\<lambda>v. fdiv (fround (fmul v (Fin (2 ^ nat k - 1)))) (Fin (2 ^ nat k - 1))) t)
         \<and> (in_unit x \<longrightarrow>
              (\<exists>q. qfn_forward k (map Fin x) = Inr q \<and> list_all (near_grid k) q))"
proof -
  have "in_unit x \<Longrightarrow>
     list_all (near_grid k)
       (map (\<lambda>v. fdiv (fround (fmul v (Fin (2 ^ nat k - 1)))) (Fin (2 ^ nat k - 1))) (map Fin x))"
    using quantize_level [OF assms]
    by (simp add: in_unit_def list_all_iff near_grid_def)
  then show ?thesis
    by (simp add: qfn_forward_eq [OF assms])
qed

theorem qfn_forward_rounds_near_grid_witness:
  "(2::int) \<le> 2 \<and> (2::int) \<le> 8 \<and> in_unit [1 / 2, 11184811 / 67108864]
   \<and> qfn_forward 2 [PInf, NaN] = Inr [PInf, NaN]
   \<and> qfn_forward 2 [Fin (1 / 2), Fin (11184811 / 67108864)]
       = Inr [Fin (11184811 / 16777216), Fin 0]
   \<and> list_all (near_grid 2) [Fin (11184811 / 16777216), Fin 0]"
proof -
  have u: "in_unit [1 / 2, 11184811 / 67108864]" by (simp add: in_unit_def)
  show ?thesis
    using qfn_forward_rounds_near_grid [of 2 "[PInf, NaN]" "[1 / 2, 11184811 / 67108864]"] u q_ex by simp
qed

text \<open>
  On the float32 tensor \<open>[0.5, 0.16666667]\<close> at 2 bits. The first element yields
  \<open>11184811 / 2^24\<close>, the float32 nearest to \<open>2/3\<close>, which is not a point of the grid. The
  second element is the float32 nearest to \<open>1/6\<close>; its product with 3 rounds to the float
  \<open>0.5\<close>, a tie that goes to 0, where the rounding of the exact product gives \<open>1/3\<close>.
\<close>

theorem qfn_forward_off_grid:
  "in_unit [1 / 2, 11184811 / 67108864]
   \<and> f32_round (1 / 2) = Fin (1 / 2)
   \<and> f32_round (11184811 / 67108864) = Fin (11184811 / 67108864)
   \<and> qfn_forward 2 [Fin (1 / 2), Fin (11184811 / 67108864)]
       = Inr [Fin (11184811 / 16777216), Fin 0]
   \<and> \<not> on_grid 2 (Fin (11184811 / 16777216))
   \<and> real_of_int (round_half_even (11184811 / 67108864 * (2 ^ nat 2 - 1))) / (2 ^ nat 2 - 1) = 1 / 3"
proof -
  have "\<bar>(33554433 / 67108864 :: real) - of_int 1\<bar> < 1 / 2" by simp
  then have "round_half_even (33554433 / 67108864) = 1" by (rule round_half_even_near)
  then have r: "real_of_int (round_half_even (11184811 / 67108864 * (2 ^ nat 2 - 1))) / (2 ^ nat 2 - 1) = 1 / 3"
    by simp
  show ?thesis
    using q_ex r not_grid ex_d ex_e by (simp add: in_unit_def)
qed

text \<open>
  Claim C9. For a bit-width \<open>k\<close> from 2 to 8 and a tensor \<open>x\<close> with every element in \<open>[0,1]\<close>,
  quantizing the quantized tensor again at the same \<open>k\<close> returns it unchanged: each rounding
  error of float32 is too small to move the product away from the level it came from.
\<close>

theorem qfn_forward_idempotent:
  assumes "2 \<le> k" "k \<le> 8" "in_unit x"
  shows "\<exists>q. qfn_forward k (map Fin x) = Inr q \<and> qfn_forward k q = Inr q"
proof -
  let ?f = "\<lambda>v. fdiv (fround (fmul v (Fin (2 ^ nat k - 1)))) (Fin (2 ^ nat k - 1))"
  have "?f (?f (Fin v)) = ?f (Fin v)" if "v \<in> set x" for v
  proof -
    from that assms(3) have "0 \<le> v" "v \<le> 1" by (auto simp: in_unit_def list_all_iff)
    from quantize_level [OF assms(1,2) this]
    obtain j where j: "j \<in> {0 .. 2 ^ nat k - 1}"
      "?f (Fin v) = f32_round (of_int j / (2 ^ nat k - 1))" by blast
    show ?thesis unfolding j(2) using requantize_level [OF assms(1,2) j(1)] .
  qed
  then have "map ?f (map ?f (map Fin x)) = map ?f (map Fin x)" by simp
  then show ?thesis by (simp only: qfn_forward_eq [OF assms(1,2)]) blast
qed

theorem qfn_forward_idempotent_witness:
  "(2::int) \<le> 2 \<and> (2::int) \<le> 8 \<and> in_unit [1 / 2, 11184811 / 67108864]
   \<and> qfn_forward 2 [Fin (1 / 2), Fin (11184811 / 67108864)]
       = Inr [Fin (11184811 / 16777216), Fin 0]
   \<and> qfn_forward 2 [Fin (11184811 / 16777216), Fin 0] = Inr [Fin (11184811 / 16777216), Fin 0]"
proof -
  have u: "in_unit [1 / 2, 11184811 / 67108864]" by (simp add: in_unit_def)
  show ?thesis
    using qfn_forward_idempotent [of 2 "[1 / 2, 11184811 / 67108864]"] u q_ex by auto
qed

section \<open>The straight-through gradient\<close>

text \<open>
  Claim C3. For every bit-width and every upstream gradient \<open>g\<close>, the backward function of
  the uniform quantizer returns \<open>g\<close> unchanged, element by element; the bit-width, and so
  the branch the forward function took, plays no role.
\<close>

theorem qfn_backward_identity: "qfn_backward k g = g"
  by (simp add: qfn_backward_def clone_id)

section \<open>Construction\<close>

text \<open>
  Claim C2, as the code has it. Constructing \<open>activation_quantize_fn(k)\<close> succeeds exactly
  when \<open>k \<le> 8\<close> or \<open>k = 32\<close>, which includes zero and the negative bit-widths.
  Constructing \<open>weight_quantize_fn(k)\<close> succeeds for the same \<open>k\<close> except those at or below
  \<open>-(2^1024 - 2^970)\<close>, where \<open>2 ** k\<close> cannot convert the exponent to a float and raises
  OverflowError. For every \<open>k\<close> above 8 other than 32, and for no other, the assertion of
  either constructor fails.
\<close>

theorem quantize_fn_init_guard:
  "succeeds (weight_quantize_fn_init k) = ((k \<le> 8 \<or> k = 32) \<and> - (2 ^ 1024 - 2 ^ 970) < k)
   \<and> succeeds (activation_quantize_fn_init k) = (k \<le> 8 \<or> k = 32)
   \<and> (weight_quantize_fn_init k = Inl AssertionError) = (\<not> (k \<le> 8 \<or> k = 32))
   \<and> (activation_quantize_fn_init k = Inl AssertionError) = (\<not> (k \<le> 8 \<or> k = 32))
   \<and> (weight_quantize_fn_init k = Inl OverflowError) = (k \<le> - (2 ^ 1024 - 2 ^ 970))"
proof (cases "k \<le> 8 \<or> k = 32")
  case False
  then show ?thesis
    by (simp add: weight_quantize_fn_init_def activation_quantize_fn_init_def)
next
  case True
  show ?thesis
  proof (cases "py_pow2 k")
    case (Inl e)
    then have e: "e = OverflowError" by (rule py_pow2_error)
    have "\<not> - (2 ^ 1024 - 2 ^ 970) < k" using py_pow2_succeeds [of k] Inl by simp
    then show ?thesis
      using True Inl e by (simp add: weight_quantize_fn_init_def activation_quantize_fn_init_def)
  next
    case (Inr p)
    have "- (2 ^ 1024 - 2 ^ 970) < k" using py_pow2_succeeds [of k] Inr by simp
    then show ?thesis
      using True Inr by (simp add: weight_quantize_fn_init_def activation_quantize_fn_init_def)
  qed
qed

theorem quantize_fn_init_guard_witness:
  "\<not> ((9::int) \<le> 8 \<or> (9::int) = 32)
   \<and> weight_quantize_fn_init 9 = Inl AssertionError
   \<and> activation_quantize_fn_init 9 = Inl AssertionError
   \<and> ((- 5::int) \<le> 8 \<or> (- 5::int) = 32)
   \<and> succeeds (weight_quantize_fn_init (- 5))
   \<and> succeeds (activation_quantize_fn_init (- 5))
   \<and> weight_quantize_fn_init (- (2 ^ 1024)) = Inl OverflowError
   \<and> succeeds (activation_quantize_fn_init (- (2 ^ 1024)))"
  using quantize_fn_init_guard [of 9] quantize_fn_init_guard [of "- 5"] quantize_fn_init_guard [of "- (2 ^ 1024)"] by simp

text \<open>
  The bit-width 0 lies outside \<open>{1, 2..8, 32}\<close>, and both constructors accept it.
\<close>

theorem quantize_fn_init_zero_accepted:
  "(0::int) \<notin> {1} \<union> {2..8} \<union> {32}
   \<and> weight_quantize_fn_init 0 = Inr \<lparr>n_bits = 0, value_range = PyInt 0, uniform_q = qfn_forward 0\<rparr>
   \<and> activation_quantize_fn_init 0 = Inr \<lparr>a_n_bits = 0, a_uniform_q = qfn_forward 0\<rparr>"
  by (simp add: weight_quantize_fn_init_def activation_quantize_fn_init_def py_pow2_def)

section \<open>Weight quantization on 2 to 8 bits\<close>

lemma nonneg_fabs: "nonneg_val (fabs v)"
  by (cases v) simp_all

lemma fmax_zero:
  assumes "nonneg_val u" "nonneg_val v" "fmax u v = Fin 0"
  shows "u = Fin 0 \<and> v = Fin 0"
  using assms by (cases u; cases v) (auto simp: max_def split: if_splits)

lemma nonneg_fmax: "nonneg_val u \<Longrightarrow> nonneg_val v \<Longrightarrow> nonneg_val (fmax u v)"
  by (cases u; cases v) (auto simp: max_def)

lemma foldl_fmax_zero_all:
  assumes "nonneg_val a" "\<forall>v\<in>set vs. nonneg_val v" "foldl fmax a vs = Fin 0"
  shows "a = Fin 0 \<and> (\<forall>v\<in>set vs. v = Fin 0)"
  using assms
proof (induction vs arbitrary: a)
  case Nil
  then show ?case by simp
next
  case (Cons x xs)
  have nn: "nonneg_val (fmax a x)" using Cons.prems by (simp add: nonneg_fmax)
  from Cons.IH [OF nn] Cons.prems
  have "fmax a x = Fin 0" "\<forall>v\<in>set xs. v = Fin 0" by auto
  with fmax_zero [of a x] Cons.prems show ?case by auto
qed

lemma t_max_fabs:
  assumes "\<exists>v\<in>set T. v \<noteq> Fin 0"
  shows "\<exists>m. t_max (map fabs T) = Inr m \<and> m \<noteq> Fin 0"
proof (cases T)
  case Nil
  then show ?thesis using assms by simp
next
  case (Cons x xs)
  have "foldl fmax (fabs x) (map fabs xs) \<noteq> Fin 0"
  proof
    assume z: "foldl fmax (fabs x) (map fabs xs) = Fin 0"
    have "fabs x = Fin 0 \<and> (\<forall>v\<in>set (map fabs xs). v = Fin 0)"
      by (rule foldl_fmax_zero_all [OF nonneg_fabs _ z]) (auto simp: nonneg_fabs)
    then have "\<forall>v\<in>set T. fabs v = Fin 0" unfolding Cons by auto
    moreover have "fabs v = Fin 0 \<Longrightarrow> v = Fin 0" for v by (cases v) auto
    ultimately show False using assms by blast
  qed
  then show ?thesis unfolding Cons by simp
qed

lemma weight_scalars:
  assumes "2 \<le> k" "k \<le> 8"
  shows "weight_quantize_fn_init k =
           Inr \<lparr>n_bits = k, value_range = PyInt (2 ^ nat k - 1), uniform_q = qfn_forward k\<rparr>"
    and "to_f32 (PyInt (2 ^ nat k - 1)) = Fin (2 ^ nat k - 1)"
    and "py_half (py_add (PyInt (2 ^ nat k - 1)) 1) = Inr (PyFloat (Fin (2 ^ nat k / 2)))"
    and "f32_round (2 ^ nat k / 2) = Fin (2 ^ nat k / 2)"
proof -
  note r = steps_range [OF assms]
  show "weight_quantize_fn_init k =
           Inr \<lparr>n_bits = k, value_range = PyInt (2 ^ nat k - 1), uniform_q = qfn_forward k\<rparr>"
    using assms by (simp add: weight_quantize_fn_init_def py_pow2_def)
  show "to_f32 (PyInt (2 ^ nat k - 1)) = Fin (2 ^ nat k - 1)"
    using qfn_scale(3) [OF assms] by simp
  have "(2::int) ^ nat k = 2 * 2 ^ (nat k - 1)"
    using assms by (cases "nat k") simp_all
  then have "real_of_int (2 ^ nat k) / 2 = of_int (2 ^ (nat k - 1))" by simp
  then have h: "(2::real) ^ nat k / 2 = of_int (2 ^ (nat k - 1))" by simp
  have "(2::int) ^ (nat k - 1) \<le> 2 ^ 23"
    using assms by (intro power_increasing) auto
  then have b: "\<bar>(2::int) ^ (nat k - 1)\<bar> \<le> 2 ^ 23" "\<bar>(2::int) ^ (nat k - 1)\<bar> \<le> 2 ^ 52" by simp_all
  show "f32_round (2 ^ nat k / 2) = Fin (2 ^ nat k / 2)"
    unfolding h using b(1) by (rule f32_round_int)
  have "f64_round (2 ^ nat k / 2) = Fin (2 ^ nat k / 2)"
    unfolding h using b(2) by (rule f64_round_int)
  then show "py_half (py_add (PyInt (2 ^ nat k - 1)) 1) = Inr (PyFloat (Fin (2 ^ nat k / 2)))"
    by simp
qed

lemma weight_quantize_formula:
  assumes "2 \<le> k" "k \<le> 8" "\<exists>v\<in>set (map (ftanh th) w). v \<noteq> Fin 0"
  shows "\<exists>m. t_max (map fabs (map (ftanh th) w)) = Inr m \<and> m \<noteq> Fin 0
           \<and> weight_quantize_with th k w =
               Inr (map (\<lambda>v. fsub (fmul (Fin (2 ^ nat k - 1))
                                        (spec_Quantizer_f32 k
                                           (fadd (fdiv (fdiv v (Fin 2)) m) (Fin (1 / 2)))))
                                  (Fin (2 ^ nat k / 2)))
                        (map (ftanh th) w))"
proof -
  from t_max_fabs [OF assms(3)] obtain m
    where m: "t_max (map fabs (map (ftanh th) w)) = Inr m" "m \<noteq> Fin 0" by blast
  have k: "k \<noteq> 32" "k \<noteq> 1" using assms by auto
  note sc = weight_scalars [OF assms(1,2)]
  have "weight_quantize_fn_forward_with th
          \<lparr>n_bits = k, value_range = PyInt (2 ^ nat k - 1), uniform_q = qfn_forward k\<rparr> w =
        Inr (map (\<lambda>v. fsub (fmul (Fin (2 ^ nat k - 1))
                                        (spec_Quantizer_f32 k
                                           (fadd (fdiv (fdiv v (Fin 2)) m) (Fin (1 / 2)))))
                                  (Fin (2 ^ nat k / 2)))
                        (map (ftanh th) w))"
    unfolding weight_quantize_fn_forward_with_def Let_def weight_quantize_fn.simps m sum.case
      qfn_forward_eq [OF assms(1,2)] sc(2) sc(3)
    using k sc(4) by (simp add: spec_Quantizer_f32_def o_def)
  then show ?thesis
    using m unfolding weight_quantize_with_def sc(1) by simp
qed

lemma tanh_small:
  fixes x :: real
  assumes "0 < x" "x \<le> 1 / 4"
  shows "x / 2 < tanh x" "tanh x < 3 * x / 2"
proof -
  define y where "y = exp (- 2 * x)"
  define p where "p = x * y"
  have ypos: "0 < y" unfolding y_def by simp
  have ylo: "1 - 2 * x \<le> y"
    unfolding y_def using exp_ge_add_one_self [of "- 2 * x"] by simp
  have "1 + 2 * x \<le> exp (2 * x)" by (rule exp_ge_add_one_self)
  moreover have "exp (2 * x) * y = 1" unfolding y_def by (simp flip: exp_add)
  ultimately have "(1 + 2 * x) * y \<le> 1"
    using ypos by (metis mult_right_mono order_less_imp_le)
  then have yhi: "y + 2 * p \<le> 1" unfolding p_def by (simp add: algebra_simps)
  have t: "tanh x = (1 - y) / (1 + y)" unfolding y_def by (rule tanh_real_altdef)
  have den: "0 < 1 + y" using ypos by simp
  have "x * (1 / 2) \<le> x * y" using ylo assms by (intro mult_left_mono) auto
  then have ph: "x / 2 \<le> p" unfolding p_def by simp
  have e1: "x * (1 + y) = x + p" unfolding p_def by (simp add: algebra_simps)
  have e2: "3 * x / 2 * (1 + y) = 3 * x / 2 + 3 * p / 2" unfolding p_def by (simp add: algebra_simps)
  have "x + p < 2 * (1 - y)" using yhi ph assms(1) by argo
  then have "x * (1 + y) / 2 < 1 - y" unfolding e1 by simp
  then have "x / 2 * (1 + y) < 1 - y" by simp
  then show "x / 2 < tanh x"
    unfolding t using den by (simp only: pos_less_divide_eq)
  have "1 - y < 3 * x / 2 + 3 * p / 2" using ylo ph assms(1) by argo
  then have "1 - y < 3 * x / 2 * (1 + y)" unfolding e2 .
  then show "tanh x < 3 * x / 2"
    unfolding t using den by (simp only: pos_divide_less_eq)
qed

lemma f32_round_sub_at:
  assumes "\<bar>r\<bar> < 2 powi (- 126)"
    and "v = of_int (round_half_even (r / 2 powi (- 149))) * 2 powi (- 149)"
    and "\<bar>v\<bar> < 2 powi 128"
  shows "f32_round r = Fin v"
proof -
  have "fp_exp 127 \<bar>r\<bar> = 1 - 127"
    using assms(1) by (intro fp_exp_small) simp_all
  moreover have "\<not> 2 powi 128 \<le> v" "\<not> v \<le> - (2 powi 128)"
    using assms(3) by linarith+
  ultimately show ?thesis
    using assms(2) unfolding f32_round_def fp_round_def Let_def by simp
qed

lemma f32_round_sub_near:
  assumes "\<bar>r\<bar> < 2 powi (- 126)"
    and "\<bar>r / 2 powi (- 149) - of_int j\<bar> < 1 / 2"
    and "v = of_int j * 2 powi (- 149)"
    and "\<bar>v\<bar> < 2 powi 128"
  shows "f32_round r = Fin v"
  using f32_round_sub_at [OF assms(1), of v] round_half_even_near [OF assms(2)] assms(3,4)
  by simp

lemma tanh_cr_zero: "tanh_cr 0 = 0"
  by (simp add: tanh_cr_def f32_round_zero)

lemma tanh_cr_tiny: "tanh_cr (2 powi (- 149)) = 2 powi (- 149)"
proof -
  define x :: real where "x = 2 powi (- 149)"
  have xpos: "0 < x" unfolding x_def by simp
  have xs: "x \<le> 1 / 4" unfolding x_def by simp
  note b = tanh_small [OF xpos xs]
  have "3 * x / 2 < 2 powi (- 126)" unfolding x_def by simp
  then have a1: "\<bar>tanh x\<bar> < 2 powi (- 126)" using b xpos by linarith
  define q where "q = tanh x / x"
  have "1 / 2 < q" "q < 3 / 2"
    unfolding q_def using b xpos by (simp_all add: pos_less_divide_eq pos_divide_less_eq)
  then have "\<bar>q - 1\<bar> < 1 / 2" by linarith
  then have a2: "\<bar>tanh x / x - of_int 1\<bar> < 1 / 2" unfolding q_def by simp
  have "f32_round (tanh x) = Fin x"
  proof (rule f32_round_sub_near [where j = 1])
    show "\<bar>tanh x\<bar> < 2 powi (- 126)" by (rule a1)
    show "\<bar>tanh x / 2 powi (- 149) - of_int 1\<bar> < 1 / 2" using a2 unfolding x_def .
    show "x = of_int 1 * 2 powi (- 149)" unfolding x_def by simp
    show "\<bar>x\<bar> < 2 powi 128" unfolding x_def by simp
  qed
  then show ?thesis unfolding x_def tanh_cr_def by simp
qed

lemma f32_evals:
  "f32_round (- (1 / 2)) = Fin (- (1 / 2))"
  "f32_round (- 2) = Fin (- 2)"
  "f32_round (33554433 / 16777216) = Fin 2"
proof -
  show "f32_round (- (1 / 2)) = Fin (- (1 / 2))"
    by (rule f32_round_near [where e = "- 1" and j = "- 8388608"]) simp_all
  show "f32_round (- 2) = Fin (- 2)"
    using f32_round_int [of "- 2"] by simp
  show "f32_round (33554433 / 16777216) = Fin 2"
    by (rule f32_round_near [where e = 1 and j = 8388608]) simp_all
qed

lemma rhe_ints: "round_half_even 0 = 0" "round_half_even 3 = 3"
  using round_half_even_of_int [of 0] round_half_even_of_int [of 3] by simp_all

lemma f32_half_tiny: "f32_round (2 powi (- 149) / 2) = Fin 0"
  by (rule f32_round_sub_at) (simp_all add: rhe_half)

text \<open>
  Claim C4, as the code has it. For a bit-width \<open>k\<close> from 2 to 8 and a weight tensor \<open>w\<close>
  with at least one element whose \<open>tanh\<close> is not zero, the maximum \<open>m\<close> of \<open>|tanh w|\<close> over
  the whole tensor of this call is not zero and the forward call returns
  \<open>(2^k - 1) * q - 2^k / 2\<close> with \<open>q = Quantizer (tanh w / 2 / m + 1/2, k)\<close>, element by
  element and in float32: \<open>tanh\<close> is the float32 the library returns, the halving comes
  before the division by \<open>m\<close>, and every quotient, sum, product and difference is rounded to
  float32. This holds for every library \<open>tanh\<close> and also on tensors with non-finite elements.
\<close>

theorem weight_quantize_float32:
  assumes "2 \<le> k" "k \<le> 8" "\<exists>v\<in>set (map (ftanh th) w). v \<noteq> Fin 0"
  shows "\<exists>m. t_max (map fabs (map (ftanh th) w)) = Inr m \<and> m \<noteq> Fin 0
           \<and> weight_quantize_with th k w =
               Inr (map (\<lambda>v. fsub (fmul (Fin (2 ^ nat k - 1))
                                        (spec_Quantizer_f32 k
                                           (fadd (fdiv (fdiv v (Fin 2)) m) (Fin (1 / 2)))))
                                  (Fin (2 ^ nat k / 2)))
                        (map (ftanh th) w))"
  using assms by (rule weight_quantize_formula)

theorem weight_quantize_float32_witness:
  "(2::int) \<le> 2 \<and> (2::int) \<le> 8
   \<and> (\<exists>v\<in>set (map (ftanh tanh_cr) [PInf, NInf, Fin 0]). v \<noteq> Fin 0)
   \<and> t_max (map fabs (map (ftanh tanh_cr) [PInf, NInf, Fin 0])) = Inr (Fin 1)
   \<and> weight_quantize_with tanh_cr 2 [PInf, NInf, Fin 0] = Inr [Fin 1, Fin (- 2), Fin 0]"
proof -
  have h: "\<exists>v\<in>set (map (ftanh tanh_cr) [PInf, NInf, Fin 0]). v \<noteq> Fin 0" by simp
  have t: "t_max (map fabs (map (ftanh tanh_cr) [PInf, NInf, Fin 0])) = Inr (Fin 1)"
    by (simp add: tanh_cr_zero)
  from weight_quantize_float32 [OF _ _ h, of 2] obtain m
    where "t_max (map fabs (map (ftanh tanh_cr) [PInf, NInf, Fin 0])) = Inr m"
      and e: "weight_quantize_with tanh_cr 2 [PInf, NInf, Fin 0] =
               Inr (map (\<lambda>v. fsub (fmul (Fin (2 ^ nat 2 - 1))
                                        (spec_Quantizer_f32 2
                                           (fadd (fdiv (fdiv v (Fin 2)) m) (Fin (1 / 2)))))
                                  (Fin (2 ^ nat 2 / 2)))
                        (map (ftanh tanh_cr) [PInf, NInf, Fin 0]))"
    by auto
  then have m: "m = Fin 1" using t by simp
  have "weight_quantize_with tanh_cr 2 [PInf, NInf, Fin 0] = Inr [Fin 1, Fin (- 2), Fin 0]"
    unfolding e m
    by (simp add: spec_Quantizer_f32_def tanh_cr_zero fp_sub_def f32_round_zero
        ex_a ex_b ex_d f32_evals rhe_half rhe_ints)
  with h t show ?thesis by simp
qed

text \<open>
  On the one-element tensor that holds the smallest positive float32, \<open>2^-149\<close>, at 2 bits
  and with the correctly rounded \<open>tanh\<close>. Its \<open>tanh\<close> rounds to \<open>2^-149\<close> itself, which is
  not zero; halving that underflows to 0, so the call returns 0. The formula of the claim,
  \<open>(2^k - 1) * Quantizer (tanh w / (2 * max |tanh w|) + 1/2, k) - 2^k / 2\<close>, has the value 1
  there, as on every tensor of one positive element.
\<close>

theorem weight_quantize_underflow:
  "ftanh tanh_cr (Fin (2 powi (- 149))) = Fin (2 powi (- 149))
   \<and> tanh (2 powi (- 149) :: real) \<noteq> 0
   \<and> weight_quantize_with tanh_cr 2 [Fin (2 powi (- 149))] = Inr [Fin 0]
   \<and> (2 ^ nat 2 - 1)
       * spec_Quantizer 2 (tanh (2 powi (- 149)) / (2 * \<bar>tanh (2 powi (- 149))\<bar>) + 1 / 2)
       - 2 ^ nat 2 / 2 = (1::real)"
proof -
  define x :: real where "x = 2 powi (- 149)"
  have xpos: "0 < x" unfolding x_def by simp
  have tx: "tanh_cr x = x" unfolding x_def by (rule tanh_cr_tiny)
  have hx: "f32_round (x / 2) = Fin 0" unfolding x_def by (rule f32_half_tiny)
  have h: "\<exists>v\<in>set (map (ftanh tanh_cr) [Fin x]). v \<noteq> Fin 0" using xpos by (simp add: tx)
  from weight_quantize_formula [OF _ _ h, of 2] obtain m
    where "t_max (map fabs (map (ftanh tanh_cr) [Fin x])) = Inr m"
      and e: "weight_quantize_with tanh_cr 2 [Fin x] =
               Inr (map (\<lambda>v. fsub (fmul (Fin (2 ^ nat 2 - 1))
                                        (spec_Quantizer_f32 2
                                           (fadd (fdiv (fdiv v (Fin 2)) m) (Fin (1 / 2)))))
                                  (Fin (2 ^ nat 2 / 2)))
                        (map (ftanh tanh_cr) [Fin x]))"
    by auto
  then have m: "m = Fin x" using xpos by (simp add: tx)
  have code: "weight_quantize_with tanh_cr 2 [Fin x] = Inr [Fin 0]"
    unfolding e m using xpos
    by (simp add: tx hx spec_Quantizer_f32_def fp_sub_def f32_round_zero
        ex_a ex_b ex_d f32_evals rhe_half)
  have tp: "0 < tanh x" using xpos by simp
  then have "tanh x / (2 * \<bar>tanh x\<bar>) + 1 / 2 = 1" by simp
  then have spec: "(2 ^ nat 2 - 1) * spec_Quantizer 2 (tanh x / (2 * \<bar>tanh x\<bar>) + 1 / 2)
       - 2 ^ nat 2 / 2 = (1::real)"
    using round_half_even_of_int [of 3] by (simp add: spec_Quantizer_def)
  show ?thesis
    using tx code spec tp unfolding x_def by simp
qed

section \<open>Division by a zero scale\<close>

text \<open>
  Claim C10. The forward call of weight quantization divides by a scalar computed from the
  data without checking it. On a non-empty all-zero weight tensor and a module of 1 bit, the
  scale \<open>E = mean |w|\<close> is 0 and the call hands the quotient \<open>w / E\<close>, NaN in every element,
  to the quantizer stored in the module, whatever that quantizer is; with the quantizer the
  constructor stores, the call raises and yields no output. For \<open>k\<close> from 2 to 8, with any
  library whose \<open>tanh 0\<close> is 0, the divisor \<open>max |tanh w|\<close> is 0 and the call returns a
  tensor that is NaN in every element.
\<close>

theorem weight_quantize_zero_tensor:
  "(n_bits self = 1 \<longrightarrow>
      weight_quantize_fn_forward_with th self (replicate (Suc m) (Fin 0)) =
        (case uniform_q self (replicate (Suc m) NaN) of
           Inl e \<Rightarrow> Inl e
         | Inr q \<Rightarrow> Inr (map (\<lambda>v. fmul v (Fin 0)) q)))
   \<and> t_mean (map fabs (replicate (Suc m) (Fin 0))) = Fin 0
   \<and> map (\<lambda>v. fdiv v (Fin 0)) (replicate (Suc m) (Fin 0)) = replicate (Suc m) NaN
   \<and> \<not> finite_result (weight_quantize_with th 1 (replicate (Suc m) (Fin 0)))
   \<and> (th 0 = 0 \<and> 2 \<le> k \<and> k \<le> 8 \<longrightarrow>
        t_max (map fabs (map (ftanh th) (replicate (Suc m) (Fin 0)))) = Inr (Fin 0)
        \<and> weight_quantize_with th k (replicate (Suc m) (Fin 0)) = Inr (replicate (Suc m) NaN)
        \<and> \<not> finite_result (weight_quantize_with th k (replicate (Suc m) (Fin 0))))"
proof -
  have a: "t_mean (map fabs (replicate (Suc m) (Fin 0))) = Fin 0"
    using t_mean_zero [of m] by simp
  have b: "map (\<lambda>v. fdiv v (Fin 0)) (replicate (Suc m) (Fin 0)) = replicate (Suc m) NaN"
    by simp
  have g: "weight_quantize_fn_forward_with th self (replicate (Suc m) (Fin 0)) =
        (case uniform_q self (replicate (Suc m) NaN) of
           Inl e \<Rightarrow> Inl e
         | Inr q \<Rightarrow> Inr (map (\<lambda>v. fmul v (Fin 0)) q))" if "n_bits self = 1"
    unfolding weight_quantize_fn_forward_with_def Let_def a b using that by simp
  have c: "weight_quantize_with th 1 x = Inl UnboundLocalError" for x
    by (simp add: weight_quantize_with_def weight_quantize_fn_init_def py_pow2_def
      weight_quantize_fn_forward_with_def qfn_forward_def)
  have tz: "map (ftanh th) (replicate (Suc m) (Fin 0)) = replicate (Suc m) (Fin 0)"
    if "th 0 = 0"
    using that by simp
  have d: "t_max (map fabs (map (ftanh th) (replicate (Suc m) (Fin 0)))) = Inr (Fin 0)"
    if "th 0 = 0"
    unfolding tz [OF that] by (simp add: foldl_fmax_zero)
  have e: "weight_quantize_with th k (replicate (Suc m) (Fin 0)) = Inr (replicate (Suc m) NaN)"
    if "th 0 = 0" "2 \<le> k" "k \<le> 8"
  proof -
    have k: "k \<noteq> 32" "k \<noteq> 1" "0 \<le> k" using that by auto
    from py_half_pow2 [OF that(2,3)] obtain c
      where c: "py_half (py_add (PyInt (2 ^ nat k - 1)) 1) = Inr c" by blast
    have nrm: "map (\<lambda>v. fadd (fdiv (fdiv v (Fin 2)) (Fin 0)) (Fin (1 / 2)))
                 (replicate (Suc m) (Fin 0)) = replicate (Suc m) NaN"
      by (simp add: f32_round_zero)
    have q: "qfn_forward k (replicate (Suc m) NaN) = Inr (replicate (Suc m) NaN)"
      unfolding qfn_forward_eq [OF that(2,3)] by simp
    have d': "t_max (map fabs (replicate (Suc m) (Fin 0))) = Inr (Fin 0)"
      using d [OF that(1)] unfolding tz [OF that(1)] .
    have fin: "map (\<lambda>v. fsub v (to_f32 c))
                 (map (\<lambda>v. fmul (to_f32 (PyInt (2 ^ nat k - 1))) v) (replicate (Suc m) NaN)) =
               replicate (Suc m) NaN"
      by (simp add: fp_sub_def)
    have "weight_quantize_fn_forward_with th
            \<lparr>n_bits = k, value_range = PyInt (2 ^ nat k - 1), uniform_q = qfn_forward k\<rparr>
            (replicate (Suc m) (Fin 0)) = Inr (replicate (Suc m) NaN)"
      unfolding weight_quantize_fn_forward_with_def Let_def tz [OF that(1)]
        weight_quantize_fn.simps d' sum.case nrm q c fin
      using k by simp
    then show ?thesis
      using that k by (simp add: weight_quantize_with_def weight_quantize_fn_init_def py_pow2_def)
  qed
  have f: "\<not> finite_result (Inr (replicate (Suc m) NaN))"
    by simp
  show ?thesis using a b c d e f g by (simp del: replicate_Suc)
qed

theorem weight_quantize_zero_tensor_witness:
  "n_bits \<lparr>n_bits = 1, value_range = PyInt 1, uniform_q = Inr\<rparr> = 1
   \<and> weight_quantize_fn_forward_with tanh_cr
        \<lparr>n_bits = 1, value_range = PyInt 1, uniform_q = Inr\<rparr> [Fin 0, Fin 0] = Inr [NaN, NaN]
   \<and> weight_quantize_with tanh_cr 1 [Fin 0, Fin 0] = Inl UnboundLocalError
   \<and> tanh_cr 0 = 0 \<and> (2::int) \<le> 2 \<and> (2::int) \<le> 8
   \<and> t_max (map fabs (map (ftanh tanh_cr) [Fin 0, Fin 0])) = Inr (Fin 0)
   \<and> weight_quantize_with tanh_cr 2 [Fin 0, Fin 0] = Inr [NaN, NaN]
   \<and> \<not> finite_result (weight_quantize_with tanh_cr 2 [Fin 0, Fin 0])"
proof -
  have c: "weight_quantize_with tanh_cr 1 [Fin 0, Fin 0] = Inl UnboundLocalError"
    by (simp add: weight_quantize_with_def weight_quantize_fn_init_def py_pow2_def
      weight_quantize_fn_forward_with_def qfn_forward_def)
  have z: "tanh_cr 0 = 0" by (simp add: tanh_cr_def f32_round_zero)
  show ?thesis
    using weight_quantize_zero_tensor
      [of "\<lparr>n_bits = 1, value_range = PyInt 1, uniform_q = Inr\<rparr>" tanh_cr 1 2] c z
    by simp
qed

section \<open>The branches for 32 bits and for 1 bit\<close>

text \<open>
  In \<open>qfn.forward\<close> the branches for 32 bits and for 1 bit assign \<open>out_tensor\<close>, and the
  function returns \<open>out\<close>, which only the last branch assigns. Both branches therefore raise
  UnboundLocalError on every input. The modules for 32 bits never call the quantizer and
  return their input; the modules for 1 bit call it.
\<close>

lemma weight_quantize_32: "weight_quantize_with th 32 x = Inr x"
  by (simp add: weight_quantize_with_def weight_quantize_fn_init_def py_pow2_def
      weight_quantize_fn_forward_with_def)

lemma activation_quantize_32: "activation_quantize 32 x = Inr x"
  by (simp add: activation_quantize_def activation_quantize_fn_init_def
      activation_quantize_fn_forward_def)

lemma weight_quantize_1: "weight_quantize_with th 1 x = Inl UnboundLocalError"
  by (simp add: weight_quantize_with_def weight_quantize_fn_init_def py_pow2_def
      weight_quantize_fn_forward_with_def qfn_forward_def)

lemma activation_quantize_1: "activation_quantize 1 x = Inl UnboundLocalError"
  by (simp add: activation_quantize_def activation_quantize_fn_init_def py_pow2_def
      activation_quantize_fn_forward_def qfn_forward_def)

text \<open>
  Claim C7 (the uniform quantizer on 32 bits returns its input unchanged), evaluated on the
  tensor \<open>[0.25]\<close>: the call raises.
\<close>

theorem qfn_forward_32_raises: "qfn_forward 32 [Fin (1/4)] = Inl UnboundLocalError"
  by (simp add: qfn_forward_def)

text \<open>
  Claim C8 (the uniform quantizer on 1 bit returns the sign of each element), evaluated on
  the tensor \<open>[2, 0, -2]\<close>: the call raises.
\<close>

theorem qfn_forward_1_raises: "qfn_forward 1 [Fin 2, Fin 0, Fin (- 2)] = Inl UnboundLocalError"
  by (simp add: qfn_forward_def)

text \<open>
  Claim C6 (weight quantization on 1 bit returns \<open>sign (w / E) * E\<close> with \<open>E = mean |w|\<close>),
  evaluated on the tensor \<open>[1, -3]\<close>, whose mean absolute value is 2: the call raises.
\<close>

theorem weight_quantize_1_raises:
  "t_mean (map fabs [Fin 1, Fin (- 3)]) = Fin 2
   \<and> weight_quantize 1 [Fin 1, Fin (- 3)] = Inl UnboundLocalError"
  by (simp add: t_mean_def weight_quantize_def weight_quantize_with_def
      weight_quantize_fn_init_def py_pow2_def weight_quantize_fn_forward_with_def
      qfn_forward_def)

section \<open>Activation quantization\<close>

text \<open>At 8 bits the activation 1.5 is clamped to 1 and comes out as 255, and the activation
  \<open>-0.3\<close> is clamped to 0 and comes out as 0.\<close>

lemma activation_quantize_examples:
  "activation_quantize 8 [Fin (3/2)] = Inr [Fin 255]"
  "activation_quantize 8 [Fin (- 3/10)] = Inr [Fin 0]"
  using qfn_forward_eq [of 8 "[Fin 1]"] qfn_forward_eq [of 8 "[Fin 0]"]
  by (simp_all add: activation_quantize_def activation_quantize_fn_init_def py_pow2_def
      activation_quantize_fn_forward_def f32_round_zero round_half_even_def)

text \<open>
  Claim C5 (for \<open>k\<close> in \<open>{1, 2..8}\<close> activation quantization returns
  \<open>(2^k - 1) * Quantizer (clamp (x, 0, 1), k)\<close>), evaluated at \<open>k = 1\<close> on the tensor
  \<open>[0.5]\<close>, where the claim gives \<open>(2^1 - 1) * sign 0.5 = 1\<close>: the call raises.
\<close>

theorem activation_quantize_1_raises:
  "(2 ^ nat 1 - 1) * spec_Quantizer 1 (min (max (1/2) 0) 1) = 1
   \<and> activation_quantize 1 [Fin (1/2)] = Inl UnboundLocalError"
  by (simp add: spec_Quantizer_def activation_quantize_def activation_quantize_fn_init_def
      py_pow2_def activation_quantize_fn_forward_def qfn_forward_def)

end
